theory Spec2Isabelle
  imports Main "HOL-Library.Sublist" "HOL-Library.AList"
begin

section \<open>JavaScript strings\<close>

text \<open>
  A JavaScript string is a sequence of UTF-16 code units.  It is modelled by a HOL
  \<open>string\<close>, one \<open>char\<close> per code unit, which covers the code units below 256
  (ASCII and Latin-1).  Every character the program tests for lies in that range.
\<close>

definition isWhiteSpace :: "char \<Rightarrow> bool" where
  \<comment> \<open>WhiteSpace and LineTerminator of ECMAScript, as far as they lie below 256:
      TAB, LF, VT, FF, CR, SP and NBSP.\<close>
  "isWhiteSpace c = (of_char c \<in> {9, 10, 11, 12, 13, 32, 160 :: nat})"

definition trim :: "string \<Rightarrow> string" where
  \<comment> \<open>String.prototype.trim\<close>
  "trim s = rev (dropWhile isWhiteSpace (rev (dropWhile isWhiteSpace s)))"

definition toLowerChar :: "char \<Rightarrow> char" where
  \<comment> \<open>the letters A-Z and the Latin-1 capitals (all of 0xC0-0xDE but the sign 0xD7)\<close>
  "toLowerChar c =
     (let n = (of_char c :: nat)
      in if (65 \<le> n \<and> n \<le> 90) \<or> (192 \<le> n \<and> n \<le> 222 \<and> n \<noteq> 215)
         then char_of (n + 32) else c)"

definition toLowerCase :: "string \<Rightarrow> string" where
  \<comment> \<open>String.prototype.toLowerCase\<close>
  "toLowerCase s = map toLowerChar s"

definition startsWith :: "string \<Rightarrow> string \<Rightarrow> bool" where
  \<comment> \<open>s.startsWith(p)\<close>
  "startsWith s p = prefix p s"

definition endsWith :: "string \<Rightarrow> string \<Rightarrow> bool" where
  \<comment> \<open>s.endsWith(p)\<close>
  "endsWith s p = suffix p s"

fun includesStr :: "string \<Rightarrow> string \<Rightarrow> bool" where
  \<comment> \<open>s.includes(p)\<close>
  "includesStr [] p = (p = [])"
| "includesStr (c # cs) p = (prefix p (c # cs) \<or> includesStr cs p)"

definition isAsciiAlpha :: "char \<Rightarrow> bool" where
  \<comment> \<open>the class [a-zA-Z]\<close>
  "isAsciiAlpha c =
     (let n = (of_char c :: nat) in (65 \<le> n \<and> n \<le> 90) \<or> (97 \<le> n \<and> n \<le> 122))"

definition isAsciiDigit :: "char \<Rightarrow> bool" where
  \<comment> \<open>the class [0-9]\<close>
  "isAsciiDigit c = (let n = (of_char c :: nat) in 48 \<le> n \<and> n \<le> 57)"

definition isLineTerminator :: "char \<Rightarrow> bool" where
  \<comment> \<open>what the dot of a regular expression does not match: LF and CR (below 256)\<close>
  "isLineTerminator c = (c = CHR 0x0A \<or> c = CHR 0x0D)"

section \<open>utils.ts: URL normalisation and the cache key\<close>

definition matchesHttpScheme :: "string \<Rightarrow> bool" where
  \<comment> \<open>the test /^https?:\/\//i; under the i flag a letter of the pattern matches its
      two ASCII cases only\<close>
  "matchesHttpScheme s =
     (toLowerCase (take 7 s) = ''http://'' \<or> toLowerCase (take 8 s) = ''https://'')"

definition baredomainPattern :: "string \<Rightarrow> bool" where
  \<comment> \<open>the test /^[a-zA-Z0-9-]+\.[a-zA-Z]{2,}(\/.*)?$/: a run of label characters, a dot,
      at least two letters, then the end or a slash and no line terminator up to the end.
      Neither run can be cut short: the character after it would be of the run's class.\<close>
  "baredomainPattern s =
     (let isLabel = (\<lambda>c. isAsciiAlpha c \<or> isAsciiDigit c \<or> c = CHR ''-'');
          label = takeWhile isLabel s;
          r1 = dropWhile isLabel s
      in label \<noteq> [] \<and>
         (case r1 of
            [] \<Rightarrow> False
          | d # r2 \<Rightarrow>
              d = CHR ''.'' \<and> 2 \<le> length (takeWhile isAsciiAlpha r2) \<and>
              (case dropWhile isAsciiAlpha r2 of
                 [] \<Rightarrow> True
               | e # r3 \<Rightarrow> e = CHR ''/'' \<and> list_all (\<lambda>c. \<not> isLineTerminator c) r3)))"

definition normalizeUrl :: "string \<Rightarrow> string" where
  "normalizeUrl url =
     (let trimmed = trim url
      in if matchesHttpScheme trimmed then trimmed
         else
           let trimmed' =
                 (if baredomainPattern trimmed
                  then (if \<not> startsWith trimmed ''www.'' then ''www.'' @ trimmed else trimmed)
                  else trimmed)
           in ''https://'' @ trimmed')"

definition getCacheKey :: "string \<Rightarrow> string" where
  "getCacheKey url = ''header-analysis:'' @ normalizeUrl url"


section \<open>utils.ts: the outcome of a fetch\<close>

text \<open>
  The six interfaces of the union \<open>FetchResult\<close>, one constructor each with the
  fields of the interface; the boolean discriminants are the constructors themselves.
\<close>

record response =
  status :: nat
  statusText :: string
  headers :: "(string \<times> string) list"  \<comment> \<open>the entries Headers.forEach yields\<close>

datatype FetchResult =
    CDNDetectionResult string nat string  \<comment> \<open>detectedServer, headerCount, message\<close>
  | HTTPOnlyWarning string  \<comment> \<open>message\<close>
  | AssetURLWarning string string  \<comment> \<open>extension, message\<close>
  | Non200StatusWarning nat string string  \<comment> \<open>statusCode, statusText, message\<close>
  | BotProtectionWarning string string  \<comment> \<open>detectedType, message\<close>
  | SuccessfulFetchResult response "(string \<times> string) list" "string option"
      \<comment> \<open>response, headers, contentType\<close>

text \<open>What \<open>fetch\<close> throws: a transport failure, with its message.\<close>

datatype transport_error = TransportError string

text \<open>
  The network is a function from the URL requested to what \<open>fetch\<close> gives for a HEAD
  request with the fixed browser-like headers, redirects followed.
\<close>

type_synonym network = "string \<Rightarrow> transport_error + response"

text \<open>The fields of a parsed \<open>URL\<close> object that the program reads.\<close>

record url =
  protocol :: string
  origin :: string
  pathname :: string
  href :: string

text \<open>
  A plain object with string values is an association list with distinct keys, in
  insertion order; \<open>obj[k] = v\<close> is \<open>AList.update\<close> and \<open>obj[k]\<close> is \<open>map_of\<close>.
\<close>

definition truthy :: "string option \<Rightarrow> bool" where
  \<comment> \<open>a string or undefined used as a condition: defined and not empty\<close>
  "truthy v = (case v of None \<Rightarrow> False | Some s \<Rightarrow> s \<noteq> [])"

definition headersToObject :: "(string \<times> string) list \<Rightarrow> (string \<times> string) list" where
  \<comment> \<open>Assigning a string to the key __proto__ of a plain object changes nothing.\<close>
  "headersToObject hs =
     foldl (\<lambda>result (key, v).
              if toLowerCase key = ''__proto__'' then result
              else AList.update (toLowerCase key) v result) [] hs"

fun digitsOf :: "nat \<Rightarrow> string" where
  \<comment> \<open>the decimal digits of a natural number\<close>
  "digitsOf n =
     (if n < 10 then [char_of (48 + n)] else digitsOf (n div 10) @ [char_of (48 + n mod 10)])"

declare digitsOf.simps [simp del]

definition assetExtensions :: "string list" where
  "assetExtensions =
     [''.png'', ''.jpg'', ''.jpeg'', ''.gif'', ''.webp'', ''.svg'', ''.ico'', ''.css'', ''.js'',
      ''.json'', ''.xml'', ''.pdf'', ''.woff'', ''.woff2'', ''.ttf'', ''.eot'']"

definition isAssetURL :: "url \<Rightarrow> string option" where
  "isAssetURL u =
     (let pathname' = toLowerCase (pathname u)
      in find (\<lambda>ext. endsWith pathname' ext) assetExtensions)"

definition isBotProtectionResponse :: "(string \<times> string) list \<Rightarrow> nat \<Rightarrow> string option" where
  "isBotProtectionResponse hs statusCode =
     (if map_option toLowerCase (map_of hs ''server'') = Some ''cloudflare'' \<and>
         truthy (map_of hs ''cf-chl-bypass'')
      then Some ''Cloudflare Challenge''
      else if statusCode = 429 then Some ''Rate Limited (429)''
      else if statusCode = 503
      then Some ''Service Unavailable (503) - Possible WAF/bot protection''
      else if (case map_of hs ''server'' of
                 None \<Rightarrow> False
               | Some sv \<Rightarrow> includesStr (toLowerCase sv) ''akamaighost'')
      then Some ''Akamai Bot Protection''
      else None)"

definition httpOnlyMessage :: string where
  "httpOnlyMessage =
     ''This site is using HTTP instead of HTTPS. All modern websites should migrate to HTTPS for security. HTTP traffic is unencrypted and vulnerable to man-in-the-middle attacks.''"

definition assetMessage :: "string \<Rightarrow> string" where
  "assetMessage assetExt =
     ''This appears to be a direct link to an asset file ('' @ assetExt @
     ''). Security headers are typically analyzed for HTML pages, not individual assets. Please enter a page URL instead.''"

definition non200Message :: "nat \<Rightarrow> string \<Rightarrow> string" where
  "non200Message st txt =
     ''Cannot reliably analyze this URL (HTTP '' @ digitsOf st @ '' '' @ txt @
     ''). The server returned a non-success response. This could be a redirect, error page, or access restriction. Try a different URL or page.''"

definition botProtectionMessage :: "string \<Rightarrow> string" where
  "botProtectionMessage botProtection =
     ''This site is serving a challenge or bot protection page ('' @ botProtection @
     ''). The headers analyzed would be from the protection layer, not your actual site. This makes the analysis unreliable.''"

definition nonHtmlMessage :: "string \<Rightarrow> string" where
  "nonHtmlMessage contentType =
     ''This URL returns '' @ contentType @
     '' instead of HTML. Security header analysis is designed for web pages (text/html), not APIs or other content types. The scoring may not be meaningful.''"

definition cdnEdgeMessage :: string where
  "cdnEdgeMessage =
     ''Response appears to come from a CDN edge (e.g., Akamai) rather than an origin server. Try fetching a deeper path like /en-us/ or /home.''"

definition tooFewHeadersMessage :: string where
  "tooFewHeadersMessage =
     ''Header fetch returned too few headers (<5). Likely a CDN edge or static asset response. Try a deeper route manually.''"

definition altPaths :: "string list" where
  "altPaths = [''/en-us/'', ''/index.html'', ''/home'', ''/about'']"

definition contentTypeOf :: "(string \<times> string) list \<Rightarrow> string option" where
  \<comment> \<open>headers["content-type"] || null\<close>
  "contentTypeOf hs = (if truthy (map_of hs ''content-type'') then map_of hs ''content-type'' else None)"

definition newURL :: "string \<Rightarrow> string \<Rightarrow> string option" where
  \<comment> \<open>new URL(path, origin).toString() for one of the alternate paths, which are absolute
      and in normal form: the origin followed by the path.  The origin of a URL that has
      none is the string null, which is no base: the constructor throws.\<close>
  "newURL path org = (if org = ''null'' then None else Some (org @ path))"

text \<open>
  The loop over the alternate paths.  It gives the requests made, in order, and the
  early return of the loop if there is one.  Whatever is thrown inside the body is caught
  and the loop goes on.
\<close>

fun tryAltPaths :: "network \<Rightarrow> string \<Rightarrow> string list \<Rightarrow> string list \<times> FetchResult option" where
  "tryAltPaths fetch org [] = ([], None)"
| "tryAltPaths fetch org (path # paths) =
     (case newURL path org of
        None \<Rightarrow> tryAltPaths fetch org paths
      | Some retryUrl \<Rightarrow>
          (case fetch retryUrl of
             Inl e \<Rightarrow>
               (let (reqs, r) = tryAltPaths fetch org paths in (retryUrl # reqs, r))
           | Inr retryRes \<Rightarrow>
               (let retryHeaders = headersToObject (headers retryRes);
                    retryContentType = contentTypeOf retryHeaders
                in if status retryRes = 200 \<and> length retryHeaders \<ge> 5
                   then ([retryUrl],
                         Some (SuccessfulFetchResult retryRes retryHeaders retryContentType))
                   else (let (reqs, r) = tryAltPaths fetch org paths
                         in (retryUrl # reqs, r)))))"

definition serverHeaderOf :: "(string \<times> string) list \<Rightarrow> string" where
  \<comment> \<open>headers["server"]?.toLowerCase() || ""\<close>
  "serverHeaderOf hs = (case map_of hs ''server'' of None \<Rightarrow> [] | Some sv \<Rightarrow> toLowerCase sv)"

definition nonHtmlContent :: "string option \<Rightarrow> string option" where
  \<comment> \<open>the content type when the test
      contentType && !contentType.includes("text/html") && !contentType.includes("application/xhtml")
      holds\<close>
  "nonHtmlContent contentType =
     (case contentType of
        None \<Rightarrow> None
      | Some ct \<Rightarrow>
          if ct \<noteq> [] \<and> \<not> includesStr ct ''text/html'' \<and> \<not> includesStr ct ''application/xhtml''
          then Some ct else None)"

definition cdnSignature :: "string \<Rightarrow> bool" where
  \<comment> \<open>/akamai|ghost|netstorage/.test(serverHeader)\<close>
  "cdnSignature serverHeader =
     (includesStr serverHeader ''akamai'' \<or> includesStr serverHeader ''ghost'' \<or>
      includesStr serverHeader ''netstorage'')"

text \<open>
  \<open>fetchWithSmartFallback\<close>, on the parsed URL.  The result is the list of the URLs
  requested, in order, and either the transport error thrown or the value returned.
\<close>

definition fetchWithSmartFallback ::
    "network \<Rightarrow> url \<Rightarrow> string list \<times> (transport_error + FetchResult)" where
  "fetchWithSmartFallback fetch normalizedUrl =
     (if protocol normalizedUrl = ''http:'' then ([], Inr (HTTPOnlyWarning httpOnlyMessage))
      else case isAssetURL normalizedUrl of
        Some assetExt \<Rightarrow> ([], Inr (AssetURLWarning assetExt (assetMessage assetExt)))
      | None \<Rightarrow>
         (case fetch (href normalizedUrl) of
            Inl e \<Rightarrow> ([href normalizedUrl], Inl e)
          | Inr res \<Rightarrow>
             (let hs = headersToObject (headers res);
                  serverHeader = serverHeaderOf hs;
                  contentType = contentTypeOf hs
              in if status res \<noteq> 200
                 then ([href normalizedUrl],
                       Inr (Non200StatusWarning (status res) (statusText res)
                              (non200Message (status res) (statusText res))))
                 else case isBotProtectionResponse hs (status res) of
                   Some botProtection \<Rightarrow>
                     ([href normalizedUrl],
                      Inr (BotProtectionWarning botProtection
                             (botProtectionMessage botProtection)))
                 | None \<Rightarrow>
                    (case nonHtmlContent contentType of
                       Some ct \<Rightarrow>
                         ([href normalizedUrl],
                          Inr (Non200StatusWarning (status res)
                                 (''Non-HTML Content ('' @ ct @ '')'') (nonHtmlMessage ct)))
                     | None \<Rightarrow>
                        (if cdnSignature serverHeader
                         then ([href normalizedUrl],
                               Inr (CDNDetectionResult serverHeader (length hs) cdnEdgeMessage))
                         else if length hs < 5
                         then (case tryAltPaths fetch (origin normalizedUrl) altPaths of
                                 (reqs, Some found) \<Rightarrow> (href normalizedUrl # reqs, Inr found)
                               | (reqs, None) \<Rightarrow>
                                   (href normalizedUrl # reqs,
                                    Inr (CDNDetectionResult
                                           (if serverHeader = [] then ''unknown''
                                            else serverHeader)
                                           (length hs) tooFewHeadersMessage)))
                         else ([href normalizedUrl],
                               Inr (SuccessfulFetchResult res hs contentType)))))))"

section \<open>header-processor.ts\<close>

record cookieStats =
  total' :: int
  secure :: int
  httpOnly :: int
  sameSite :: int

record metadata =
  hasCsp :: bool
  hasCspReportOnly :: bool
  hasHsts :: bool
  cookieStats :: cookieStats

record ProcessedHeaders =
  rawHeaders :: "(string \<times> string) list"
  metadata :: metadata

definition isCookieNameChar :: "char \<Rightarrow> bool" where
  \<comment> \<open>the class [a-zA-Z0-9_-]\<close>
  "isCookieNameChar c = (isAsciiAlpha c \<or> isAsciiDigit c \<or> c = CHR ''_'' \<or> c = CHR ''-'')"

definition startsCookiePair :: "string \<Rightarrow> bool" where
  \<comment> \<open>the lookahead (?=[a-zA-Z0-9_-]+=): a run of name characters, not empty, then an
      equals sign\<close>
  "startsCookiePair s =
     (takeWhile isCookieNameChar s \<noteq> [] \<and>
      (case dropWhile isCookieNameChar s of [] \<Rightarrow> False | c # r \<Rightarrow> c = CHR ''=''))"

text \<open>
  \<open>split(/,\s*(?=[a-zA-Z0-9_-]+=)/)\<close>: the text is cut at every comma that, after any
  white space, is followed by a name and an equals sign; the comma and the white space
  are dropped.  \<open>cur\<close> holds the piece being read, reversed.
\<close>

function splitCookies :: "string \<Rightarrow> string \<Rightarrow> string list" where
  "splitCookies cur [] = [rev cur]"
| "splitCookies cur (c # cs) =
     (if c = CHR '','' \<and> startsCookiePair (dropWhile isWhiteSpace cs)
      then rev cur # splitCookies [] (dropWhile isWhiteSpace cs)
      else splitCookies (c # cur) cs)"
  by pat_completeness auto
termination
  by (relation "measure (\<lambda>(cur, s). length s)")
     (auto simp add: less_Suc_eq_le length_dropWhile_le)

definition countCookie :: "int \<times> int \<times> int \<Rightarrow> string \<Rightarrow> int \<times> int \<times> int" where
  \<comment> \<open>the body of the loop over the cookies, on the three counters\<close>
  "countCookie counters cookie =
     (case counters of
        (nSecure, nHttpOnly, nSameSite) \<Rightarrow>
          (let lowerCookie = toLowerCase cookie
           in (if includesStr lowerCookie ''secure'' then nSecure + 1 else nSecure,
               if includesStr lowerCookie ''httponly'' then nHttpOnly + 1 else nHttpOnly,
               if includesStr lowerCookie ''samesite'' then nSameSite + 1 else nSameSite)))"

definition analyzeCookies :: "string option \<Rightarrow> cookieStats" where
  "analyzeCookies setCookieHeader =
     (case setCookieHeader of
        None \<Rightarrow> \<lparr>total' = 0, secure = 0, httpOnly = 0, sameSite = 0\<rparr>
      | Some h \<Rightarrow>
          if h = [] then \<lparr>total' = 0, secure = 0, httpOnly = 0, sameSite = 0\<rparr>
          else
            (let cookies = filter (\<lambda>piece. piece \<noteq> []) (splitCookies [] h)
             in case foldl countCookie (0, 0, 0) cookies of
                  (nSecure, nHttpOnly, nSameSite) \<Rightarrow>
                    \<lparr>total' = int (length cookies), secure = nSecure,
                       httpOnly = nHttpOnly, sameSite = nSameSite\<rparr>))"

definition preprocessHeaders :: "(string \<times> string) list \<Rightarrow> ProcessedHeaders" where
  "preprocessHeaders hs =
     \<lparr>rawHeaders = hs,
      metadata =
        \<lparr>hasCsp = truthy (map_of hs ''content-security-policy''),
         hasCspReportOnly = truthy (map_of hs ''content-security-policy-report-only''),
         hasHsts = truthy (map_of hs ''strict-transport-security''),
         cookieStats = analyzeCookies (map_of hs ''set-cookie'')\<rparr>\<rparr>"

section \<open>JSON values, JSON.parse and JSON.stringify\<close>

text \<open>
  \<open>JSON.parse\<close> and \<open>JSON.stringify\<close> belong to the JavaScript engine, not to the
  repository.  The program is modelled over any parser (a parameter of \<open>recover\<close>
  below); the reference parser \<open>JSON_parse\<close> of this section follows the JSON
  grammar of ECMA-404 and is used to run the program on concrete texts.

  A value of JSON: an object is the list of its properties in insertion order, its keys
  distinct.  Numbers are the integers, which JavaScript prints in plain decimal (below
  \<open>10\<^sup>2\<^sup>1\<close>); a number with a fraction or an exponent, and a \<open>\u\<close> escape for a code
  unit above 255, are outside the model and reported by the error \<open>Unmodelled\<close>.
\<close>

datatype json =
    JNull
  | JBool bool
  | JNum int
  | JStr string
  | JArr "json list"
  | JObj "(string \<times> json) list"

datatype syntax_error =
    BadControlCharacter
  | UnterminatedString
  | BadEscapedCharacter
  | BadUnicodeEscape
  | UnexpectedToken
  | UnexpectedEnd
  | UnexpectedNonWhitespace
  | Unmodelled
  | OutOfFuel

text \<open>
  The messages of V8 for these errors, without the position.  \<open>Unmodelled\<close> and
  \<open>OutOfFuel\<close> are errors of the model only; the second is never a result of
  \<open>JSON_parse\<close>, as is proved below.
\<close>

definition errorMessage :: "syntax_error \<Rightarrow> string" where
  "errorMessage e =
     (case e of
        BadControlCharacter \<Rightarrow> ''Bad control character in string literal in JSON''
      | UnterminatedString \<Rightarrow> ''Unterminated string in JSON''
      | BadEscapedCharacter \<Rightarrow> ''Bad escaped character in JSON''
      | BadUnicodeEscape \<Rightarrow> ''Bad Unicode escape in JSON''
      | UnexpectedToken \<Rightarrow> ''Unexpected token in JSON''
      | UnexpectedEnd \<Rightarrow> ''Unexpected end of JSON input''
      | UnexpectedNonWhitespace \<Rightarrow> ''Unexpected non-whitespace character after JSON''
      | Unmodelled \<Rightarrow> ''Unmodelled JSON text''
      | OutOfFuel \<Rightarrow> ''Maximum call stack size exceeded'')"

definition dquote :: char where
  "dquote = CHR 0x22"

definition backslash :: char where
  "backslash = CHR 0x5C"

definition isJsonWhiteSpace :: "char \<Rightarrow> bool" where
  \<comment> \<open>the white space of JSON: TAB, LF, CR and SP\<close>
  "isJsonWhiteSpace c = (c = CHR 0x09 \<or> c = CHR 0x0A \<or> c = CHR 0x0D \<or> c = CHR 0x20)"

definition skipWs :: "string \<Rightarrow> string" where
  "skipWs s = dropWhile isJsonWhiteSpace s"

definition hexVal :: "char \<Rightarrow> nat option" where
  "hexVal c =
     (let n = (of_char c :: nat)
      in if 48 \<le> n \<and> n \<le> 57 then Some (n - 48)
         else if 97 \<le> n \<and> n \<le> 102 then Some (n - 87)
         else if 65 \<le> n \<and> n \<le> 70 then Some (n - 55)
         else None)"

definition hex4 :: "string \<Rightarrow> nat option" where
  \<comment> \<open>the value of the four hexadecimal digits after \<open>\u\<close>\<close>
  "hex4 s =
     (case map hexVal (take 4 s) of
        [Some a, Some b, Some c, Some d] \<Rightarrow> Some (((a * 16 + b) * 16 + c) * 16 + d)
      | _ \<Rightarrow> None)"

definition unescape :: "char \<Rightarrow> char option" where
  \<comment> \<open>the character a one-letter escape stands for\<close>
  "unescape e =
     (if e = dquote then Some dquote
      else if e = backslash then Some backslash
      else if e = CHR ''/'' then Some CHR ''/''
      else if e = CHR ''b'' then Some (CHR 0x08)
      else if e = CHR ''f'' then Some (CHR 0x0C)
      else if e = CHR ''n'' then Some (CHR 0x0A)
      else if e = CHR ''r'' then Some (CHR 0x0D)
      else if e = CHR ''t'' then Some (CHR 0x09)
      else None)"

definition consChar :: "char \<Rightarrow> syntax_error + string \<times> string \<Rightarrow> syntax_error + string \<times> string" where
  "consChar c r = (case r of Inl e \<Rightarrow> Inl e | Inr (str, rest) \<Rightarrow> Inr (c # str, rest))"

text \<open>A string literal after its opening quote: the string it denotes and the rest.\<close>

fun parseStringBody :: "string \<Rightarrow> syntax_error + string \<times> string" where
  "parseStringBody [] = Inl UnterminatedString"
| "parseStringBody (c # cs) =
     (if c = dquote then Inr ([], cs)
      else if c = backslash then
        (case cs of
           [] \<Rightarrow> Inl UnterminatedString
         | e # r \<Rightarrow>
             if e = CHR ''u'' then
               (case hex4 r of
                  None \<Rightarrow> Inl BadUnicodeEscape
                | Some n \<Rightarrow>
                    if n < 256 then consChar (char_of n) (parseStringBody (drop 4 r))
                    else Inl Unmodelled)
             else
               (case unescape e of
                  None \<Rightarrow> Inl BadEscapedCharacter
                | Some ch \<Rightarrow> consChar ch (parseStringBody r)))
      else if (of_char c :: nat) < 32 then Inl BadControlCharacter
      else consChar c (parseStringBody cs))"

definition natOfDigits :: "string \<Rightarrow> nat" where
  "natOfDigits ds = foldl (\<lambda>n c. 10 * n + (of_char c - 48)) 0 ds"

definition parseNumber :: "string \<Rightarrow> syntax_error + json \<times> string" where
  \<comment> \<open>-?(0|[1-9][0-9]*), on a text that begins with a minus sign or a digit\<close>
  "parseNumber s =
     (let negative = (case s of [] \<Rightarrow> False | c # cs \<Rightarrow> c = CHR ''-'');
          s1 = (if negative then tl s else s);
          ds = takeWhile isAsciiDigit s1;
          r = dropWhile isAsciiDigit s1
      in if ds = [] then (if s1 = [] then Inl UnexpectedEnd else Inl UnexpectedToken)
         else if 1 < length ds \<and> hd ds = CHR ''0'' then Inl UnexpectedToken
         else if (case r of [] \<Rightarrow> False
                  | c # cs \<Rightarrow> c = CHR ''.'' \<or> c = CHR ''e'' \<or> c = CHR ''E'')
         then Inl Unmodelled
         else Inr (JNum (if negative then - int (natOfDigits ds) else int (natOfDigits ds)), r))"

text \<open>
  The recursive descent over values, array elements and object members.  The first
  argument bounds the number of nested calls; \<open>parseText\<close> starts with more than
  any text of its length needs.
\<close>

fun parseValue :: "nat \<Rightarrow> string \<Rightarrow> syntax_error + json \<times> string"
  and parseElements :: "nat \<Rightarrow> json list \<Rightarrow> string \<Rightarrow> syntax_error + json list \<times> string"
  and parseMembers ::
    "nat \<Rightarrow> (string \<times> json) list \<Rightarrow> string \<Rightarrow> syntax_error + (string \<times> json) list \<times> string"
where
  "parseValue 0 s = Inl OutOfFuel"
| "parseValue (Suc n) s =
     (case skipWs s of
        [] \<Rightarrow> Inl UnexpectedEnd
      | c # cs \<Rightarrow>
          if c = CHR ''{'' then
            (case skipWs cs of
               [] \<Rightarrow> Inl UnexpectedEnd
             | d # ds \<Rightarrow>
                 if d = CHR ''}'' then Inr (JObj [], ds)
                 else (case parseMembers n [] (d # ds) of
                         Inl e \<Rightarrow> Inl e
                       | Inr (kvs, r) \<Rightarrow> Inr (JObj kvs, r)))
          else if c = CHR ''['' then
            (case skipWs cs of
               [] \<Rightarrow> Inl UnexpectedEnd
             | d # ds \<Rightarrow>
                 if d = CHR '']'' then Inr (JArr [], ds)
                 else (case parseElements n [] (d # ds) of
                         Inl e \<Rightarrow> Inl e
                       | Inr (vs, r) \<Rightarrow> Inr (JArr vs, r)))
          else if c = dquote then
            (case parseStringBody cs of
               Inl e \<Rightarrow> Inl e
             | Inr (str, r) \<Rightarrow> Inr (JStr str, r))
          else if c = CHR ''-'' \<or> isAsciiDigit c then parseNumber (c # cs)
          else if prefix ''true'' (c # cs) then Inr (JBool True, drop 4 (c # cs))
          else if prefix ''false'' (c # cs) then Inr (JBool False, drop 5 (c # cs))
          else if prefix ''null'' (c # cs) then Inr (JNull, drop 4 (c # cs))
          else Inl UnexpectedToken)"
| "parseElements 0 acc s = Inl OutOfFuel"
| "parseElements (Suc n) acc s =
     (case parseValue n s of
        Inl e \<Rightarrow> Inl e
      | Inr (v, r) \<Rightarrow>
          (case skipWs r of
             [] \<Rightarrow> Inl UnexpectedEnd
           | c # cs \<Rightarrow>
               if c = CHR '','' then parseElements n (acc @ [v]) cs
               else if c = CHR '']'' then Inr (acc @ [v], cs)
               else Inl UnexpectedToken))"
| "parseMembers 0 acc s = Inl OutOfFuel"
| "parseMembers (Suc n) acc s =
     (case skipWs s of
        [] \<Rightarrow> Inl UnexpectedEnd
      | c # cs \<Rightarrow>
          if c \<noteq> dquote then Inl UnexpectedToken
          else
            (case parseStringBody cs of
               Inl e \<Rightarrow> Inl e
             | Inr (key, r) \<Rightarrow>
                 (case skipWs r of
                    [] \<Rightarrow> Inl UnexpectedEnd
                  | d # ds \<Rightarrow>
                      if d \<noteq> CHR '':'' then Inl UnexpectedToken
                      else
                        (case parseValue n ds of
                           Inl e \<Rightarrow> Inl e
                         | Inr (v, r2) \<Rightarrow>
                             (case skipWs r2 of
                                [] \<Rightarrow> Inl UnexpectedEnd
                              | e # es \<Rightarrow>
                                  if e = CHR '','' then parseMembers n (AList.update key v acc) es
                                  else if e = CHR ''}''
                                  then Inr (AList.update key v acc, es)
                                  else Inl UnexpectedToken)))))"

definition parseText :: "string \<Rightarrow> syntax_error + json" where
  "parseText s =
     (case parseValue (2 * length s + 2) s of
        Inl e \<Rightarrow> Inl e
      | Inr (v, r) \<Rightarrow> if skipWs r = [] then Inr v else Inl UnexpectedNonWhitespace)"

text \<open>
  A parser gives the value, or the message of the \<open>SyntaxError\<close> it throws.
\<close>

type_synonym parser = "string \<Rightarrow> string + json"

definition JSON_parse :: parser where
  "JSON_parse s = (case parseText s of Inl e \<Rightarrow> Inl (errorMessage e) | Inr v \<Rightarrow> Inr v)"

fun hexDigits :: "nat \<Rightarrow> string" where
  \<comment> \<open>Number.prototype.toString(16)\<close>
  "hexDigits n =
     (if n < 16 then [''0123456789abcdef'' ! n]
      else hexDigits (n div 16) @ [''0123456789abcdef'' ! (n mod 16)])"

declare hexDigits.simps [simp del]

definition padStart4 :: "string \<Rightarrow> string" where
  \<comment> \<open>padStart(4, '0')\<close>
  "padStart4 s = replicate (4 - length s) CHR ''0'' @ s"

definition quoteChar :: "char \<Rightarrow> string" where
  \<comment> \<open>one code unit inside a string literal written by JSON.stringify\<close>
  "quoteChar c =
     (if c = CHR 0x08 then [backslash, CHR ''b'']
      else if c = CHR 0x09 then [backslash, CHR ''t'']
      else if c = CHR 0x0A then [backslash, CHR ''n'']
      else if c = CHR 0x0C then [backslash, CHR ''f'']
      else if c = CHR 0x0D then [backslash, CHR ''r'']
      else if c = dquote then [backslash, dquote]
      else if c = backslash then [backslash, backslash]
      else if (of_char c :: nat) < 32 then [backslash, CHR ''u''] @ padStart4 (hexDigits (of_char c))
      else [c])"

definition quoteString :: "string \<Rightarrow> string" where
  "quoteString s = [dquote] @ concat (map quoteChar s) @ [dquote]"




section \<open>analyzer.ts: from the reply of the model to the analysis\<close>

text \<open>
  What is thrown inside the \<open>try\<close> block of \<open>analyzeHeaders\<close>, with the fixed part
  of its message.
\<close>

datatype exn =
    SyntaxError string  \<comment> \<open>thrown by JSON.parse\<close>
  | Error string  \<comment> \<open>thrown by the program\<close>
  | TypeError string  \<comment> \<open>a property read on null\<close>

definition fence :: string where
  \<comment> \<open>three backticks\<close>
  "fence = [CHR 0x60, CHR 0x60, CHR 0x60]"

definition dropOptional :: "char \<Rightarrow> string \<Rightarrow> string" where
  \<comment> \<open>what is left after an optional character of a regular expression\<close>
  "dropOptional x s = (case s of [] \<Rightarrow> [] | c # cs \<Rightarrow> if c = x then cs else s)"

text \<open>
  \<open>replace(/```json?\n?/g, "")\<close>: every occurrence of three backticks and \<open>jso\<close>, with
  an \<open>n\<close> and a line feed after it if they are there, is removed, from left to right.
  The question mark of \<open>json?\<close> makes the \<open>n\<close> optional, not the word.
\<close>

function stripOpeningFences :: "string \<Rightarrow> string" where
  "stripOpeningFences [] = []"
| "stripOpeningFences (c # cs) =
     (if prefix (fence @ ''jso'') (c # cs)
      then stripOpeningFences (dropOptional (CHR 0x0A) (dropOptional CHR ''n'' (drop 6 (c # cs))))
      else c # stripOpeningFences cs)"
  by pat_completeness auto
termination
proof (relation "measure length")
  show "wf (measure length)" by simp
next
  fix c :: char and cs :: string
  have shorter: "length (dropOptional x s) \<le> length s" for x s
    by (simp add: dropOptional_def split: list.splits)
  have "length (dropOptional (CHR 0x0A) (dropOptional CHR ''n'' (drop 6 (c # cs))))
          \<le> length (dropOptional CHR ''n'' (drop 6 (c # cs)))"
    by (rule shorter)
  also have "\<dots> \<le> length (drop 6 (c # cs))" by (rule shorter)
  also have "\<dots> < length (c # cs)" by simp
  finally show "(dropOptional (CHR 0x0A) (dropOptional CHR ''n'' (drop 6 (c # cs))), c # cs)
                  \<in> measure length"
    by simp
next
  fix c :: char and cs :: string
  show "(cs, c # cs) \<in> measure length" by simp
qed

definition stripClosingFence :: "string \<Rightarrow> string" where
  \<comment> \<open>replace(/```\n?$/g, ""): the dollar sign is the end of the text, so the only match is
      three backticks at the very end, or three backticks and a final line feed\<close>
  "stripClosingFence s =
     (if suffix (fence @ [CHR 0x0A]) s then take (length s - 4) s
      else if suffix fence s then take (length s - 3) s
      else s)"

definition escapeControl :: "char \<Rightarrow> string" where
  \<comment> \<open>what the repair pass writes for a character inside a string\<close>
  "escapeControl char =
     (if char = CHR 0x0A then [backslash, CHR ''n'']
      else if char = CHR 0x0D then [backslash, CHR ''r'']
      else if char = CHR 0x09 then [backslash, CHR ''t'']
      else if char = CHR 0x0C then [backslash, CHR ''f'']
      else if char = CHR 0x08 then [backslash, CHR ''b'']
      else if (of_char char :: nat) < 32 \<and> char \<noteq> CHR 0x0A \<and> char \<noteq> CHR 0x0D \<and> char \<noteq> CHR 0x09
      then [backslash, CHR ''u''] @ padStart4 (hexDigits (of_char char))
      else [char])"

text \<open>
  The loop of the repair pass (analyzer.ts lines 138 to 179).  Its state is the two
  flags \<open>inString\<close> and \<open>escapeNext\<close>; \<open>prevChar\<close> is the character before the current
  one, \<open>None\<close> at the first.  The function gives what the loop appends to \<open>result\<close>.
\<close>

fun escapeControlChars :: "bool \<Rightarrow> bool \<Rightarrow> char option \<Rightarrow> string \<Rightarrow> string" where
  "escapeControlChars inString escapeNext prevChar [] = []"
| "escapeControlChars inString escapeNext prevChar (char # rest) =
     (if escapeNext then char # escapeControlChars inString False (Some char) rest
      else if char = backslash then char # escapeControlChars inString True (Some char) rest
      else if char = dquote \<and> prevChar \<noteq> Some backslash
      then char # escapeControlChars (\<not> inString) False (Some char) rest
      else if inString then escapeControl char @ escapeControlChars inString False (Some char) rest
      else char # escapeControlChars inString False (Some char) rest)"

definition isControlCharacterError :: "string \<Rightarrow> bool" where
  \<comment> \<open>errorMsg.includes("control character") || errorMsg.includes("Bad control")\<close>
  "isControlCharacterError errorMsg =
     (includesStr errorMsg ''control character'' \<or> includesStr errorMsg ''Bad control'')"

definition property :: "json \<Rightarrow> string \<Rightarrow> json option" where
  \<comment> \<open>reading a property of a value that is not null: an own property of an object; the
      three names read by the program are no properties of arrays, strings, numbers or
      booleans\<close>
  "property v name = (case v of JObj kvs \<Rightarrow> map_of kvs name | _ \<Rightarrow> None)"

definition isNumber :: "json option \<Rightarrow> bool" where
  \<comment> \<open>typeof x === "number"\<close>
  "isNumber x = (case x of Some (JNum n) \<Rightarrow> True | _ \<Rightarrow> False)"

definition isString :: "json option \<Rightarrow> bool" where
  \<comment> \<open>typeof x === "string"\<close>
  "isString x = (case x of Some (JStr s) \<Rightarrow> True | _ \<Rightarrow> False)"

definition isArray :: "json option \<Rightarrow> bool" where
  \<comment> \<open>Array.isArray(x)\<close>
  "isArray x = (case x of Some (JArr vs) \<Rightarrow> True | _ \<Rightarrow> False)"

definition validShape :: "json \<Rightarrow> bool" where
  \<comment> \<open>the negation of the test of lines 188 to 192\<close>
  "validShape analysis =
     (isNumber (property analysis ''score'') \<and> isString (property analysis ''summary'') \<and>
      isArray (property analysis ''issues''))"

definition validate :: "json \<Rightarrow> exn + json" where
  \<comment> \<open>lines 188 to 197; reading \<open>analysis.score\<close> of null throws a TypeError\<close>
  "validate analysis =
     (if analysis = JNull then Inl (TypeError ''Cannot read properties of null'')
      else if \<not> validShape analysis then Inl (Error ''Invalid response structure'')
      else Inr analysis)"

definition stripFences :: "string \<Rightarrow> string" where
  \<comment> \<open>lines 101 to 108: the trimmed reply, without its fences if it begins with one\<close>
  "stripFences response =
     (let responseText = trim response
      in if startsWith responseText fence
         then trim (stripClosingFence (stripOpeningFences responseText))
         else responseText)"

definition isTruncated :: "string \<Rightarrow> bool" where
  \<comment> \<open>the test of line 111\<close>
  "isTruncated responseText =
     (let trimmed = trim responseText
      in \<not> endsWith trimmed ''}'' \<and> \<not> endsWith trimmed '']'')"

text \<open>
  The \<open>try\<close> block from line 96 on, given the text \<open>result.response\<close>: the value
  returned at line 197, or what is thrown.
\<close>

definition parseAnalysis :: "parser \<Rightarrow> string \<Rightarrow> exn + json" where
  "parseAnalysis parse response =
     (if response = [] then Inl (Error ''Invalid response structure'')
      else
        let responseText = stripFences response
        in if isTruncated responseText
           then Inl (Error ''AI response JSON appears to be truncated or incomplete'')
           else
             (case (if startsWith responseText [dquote] \<and> endsWith responseText [dquote]
                    then parse responseText else Inr (JStr responseText)) of
                Inl msg \<Rightarrow> Inl (SyntaxError msg)
              | Inr (JStr jsonText) \<Rightarrow>
                  (case parse jsonText of
                     Inr analysis \<Rightarrow> validate analysis
                   | Inl errorMsg \<Rightarrow>
                       if isControlCharacterError errorMsg
                       then (case parse (escapeControlChars False False None jsonText) of
                               Inl msg \<Rightarrow> Inl (SyntaxError msg)
                             | Inr analysis \<Rightarrow> validate analysis)
                       else Inl (SyntaxError errorMsg))
              | Inr other \<Rightarrow> Inl (Error ''Unexpected: jsonText is not a string'')))"

definition degradedResult :: json where
  \<comment> \<open>the object returned by the \<open>catch\<close> block, lines 203 to 218\<close>
  "degradedResult =
     JObj [(''score'', JNum 50),
           (''summary'',
            JStr ''Unable to complete AI analysis. Basic header check shows moderate security concerns.''),
           (''issues'',
            JArr [JObj [(''name'', JStr ''Analysis Error''),
                        (''severity'', JStr ''medium''),
                        (''header'', JStr ''N/A''),
                        (''current_value'', JNull),
                        (''recommended_value'', JStr ''N/A''),
                        (''explanation'',
                         JStr ''The AI analysis failed. Please try again or contact support if the issue persists.'')]])]"

definition recover :: "parser \<Rightarrow> string \<Rightarrow> json" where
  \<comment> \<open>\<open>analyzeHeaders\<close> from the reply of the model on: whatever is thrown is caught\<close>
  "recover parse response =
     (case parseAnalysis parse response of Inl thrown \<Rightarrow> degradedResult | Inr analysis \<Rightarrow> analysis)"

section \<open>Example inputs\<close>

text \<open>Concrete URLs, responses and networks on which the properties below are run.\<close>

definition exampleUrl :: url where
  "exampleUrl = \<lparr>protocol = ''https:'', origin = ''https://example.com'', pathname = ''/'', href = ''https://example.com/''\<rparr>"

definition sparseResponse :: response where
  "sparseResponse = \<lparr>status = 200, statusText = ''OK'',
     headers = [(''Date'', ''Tue, 03 Nov 2026 10:00:00 GMT''), (''Server'', ''nginx''), (''Content-Type'', ''text/html'')]\<rparr>"

definition richResponse :: response where
  "richResponse = \<lparr>status = 200, statusText = ''OK'',
     headers = [(''content-type'', ''text/html; charset=utf-8''), (''date'', ''Tue, 03 Nov 2026 10:00:01 GMT''),
       (''server'', ''nginx''), (''strict-transport-security'', ''max-age=63072000''),
       (''x-content-type-options'', ''nosniff''), (''x-frame-options'', ''DENY''),
       (''referrer-policy'', ''no-referrer''), (''content-security-policy'', ''default-src https:'')]\<rparr>"

definition exampleNetwork :: network where
  "exampleNetwork requested =
     (if requested = ''https://example.com/'' then Inr sparseResponse
      else if requested = ''https://example.com/en-us/'' then Inl (TransportError ''connection refused'')
      else if requested = ''https://example.com/index.html'' then Inr richResponse
      else Inr sparseResponse)"

definition unavailableResponse :: response where
  "unavailableResponse = \<lparr>status = 503, statusText = ''Service Unavailable'', headers = []\<rparr>"

definition unavailableNetwork :: network where
  "unavailableNetwork requested = Inr unavailableResponse"

definition assetUrl :: url where
  "assetUrl = \<lparr>protocol = ''https:'', origin = ''https://example.com'',
     pathname = ''/static/Logo.PNG'', href = ''https://example.com/static/Logo.PNG''\<rparr>"

definition httpAssetUrl :: url where
  "httpAssetUrl = \<lparr>protocol = ''http:'', origin = ''http://example.com'',
     pathname = ''/logo.png'', href = ''http://example.com/logo.png''\<rparr>"

definition edgeCandidate :: response where
  "edgeCandidate = \<lparr>status = 200, statusText = ''OK'',
     headers = [(''content-type'', ''application/json''), (''date'', ''Tue, 03 Nov 2026 10:00:02 GMT''),
       (''server'', ''AkamaiGHost''), (''cache-control'', ''max-age=60''), (''etag'', ''abc''),
       (''content-length'', ''17''), (''vary'', ''Accept-Encoding''), (''x-cache'', ''TCP_HIT'')]\<rparr>"

definition edgeNetwork :: network where
  "edgeNetwork requested =
     (if requested = ''https://example.com/'' then Inr sparseResponse else Inr edgeCandidate)"

text \<open>Replies of the model, as texts.\<close>

definition goodReply :: string where
  \<open>goodReply = ''{"score": 85, "summary": "Good headers", "issues": []}''\<close>

definition fenceInSummary :: string where
  \<open>fenceInSummary = ''{"score": 85, "summary": "'' @ fence @ ''json", "issues": []}''\<close>

definition truncatedReply :: string where
  \<open>truncatedReply = ''{"score": 85, "summary": "Good headers", "issues": [{"name": "No CSP", "sev''\<close>

definition escapedBackslashReply :: string where
  \<open>escapedBackslashReply =
     ''{"score": 85, "summary": "dir'' @ [backslash, backslash] @ ''", "issues": ["a'' @ [CHR 0x0A] @ ''b"]}''\<close>

definition escapedBackslashReplyEscaped :: string where
  \<open>escapedBackslashReplyEscaped =
     ''{"score": 85, "summary": "dir'' @ [backslash, backslash] @ ''", "issues": ["a'' @ [backslash] @ ''nb"]}''\<close>

definition rawNewlineReply :: string where
  \<open>rawNewlineReply =
     ''{"score": 85, "summary": "first'' @ [CHR 0x0A] @ ''second'' @ [CHR 0x09] @ ''third", "issues": []}''\<close>


section \<open>Auxiliary notions\<close>

definition isTrimmed :: "string \<Rightarrow> bool" where
  \<comment> \<open>no white space at either end\<close>
  "isTrimmed s = (s = [] \<or> (\<not> isWhiteSpace (hd s) \<and> \<not> isWhiteSpace (last s)))"


text \<open>What may follow a number: the end, or a character that does not continue it.\<close>

definition numberEnds :: "string \<Rightarrow> bool" where
  "numberEnds rest =
     (case rest of [] \<Rightarrow> True
      | c # cs \<Rightarrow> \<not> isAsciiDigit c \<and> c \<noteq> CHR ''.'' \<and> c \<noteq> CHR ''e'' \<and> c \<noteq> CHR ''E'')"



text \<open>What may stand between a fence and the text it encloses: nothing, or a line feed.\<close>

definition optionalLineFeed :: "string \<Rightarrow> bool" where
  "optionalLineFeed s = (s = [] \<or> s = [CHR 0x0A])"

section \<open>Properties of utils.ts\<close>

subsection \<open>normalizeUrl and getCacheKey\<close>

lemma trim_fixes_trimmed: "isTrimmed s \<Longrightarrow> trim s = s"
proof (cases s)
  case Nil
  then show ?thesis by (simp add: trim_def)
next
  case (Cons c cs)
  assume t: "isTrimmed s"
  from t Cons have h: "\<not> isWhiteSpace c" and l: "\<not> isWhiteSpace (last s)"
    by (simp_all add: isTrimmed_def)
  from Cons h have d1: "dropWhile isWhiteSpace s = s" by simp
  from l have d2: "dropWhile isWhiteSpace (rev s) = rev s"
    by (simp add: dropWhile_eq_self_iff hd_rev)
  show ?thesis by (simp add: trim_def d1 d2)
qed

lemma trim_is_trimmed: "isTrimmed (trim s)"
proof -
  define a where "a = dropWhile isWhiteSpace s"
  define b where "b = dropWhile isWhiteSpace (rev a)"
  have t: "trim s = rev b" by (simp add: trim_def a_def b_def)
  show ?thesis
  proof (cases "b = []")
    case True
    then show ?thesis by (simp add: t isTrimmed_def)
  next
    case False
    then have hb: "\<not> isWhiteSpace (hd b)" unfolding b_def by (rule hd_dropWhile)
    from False have "rev a \<noteq> []" unfolding b_def by auto
    then have an: "a \<noteq> []" by simp
    then have ha: "\<not> isWhiteSpace (hd a)" unfolding a_def by (rule hd_dropWhile)
    have "rev a = takeWhile isWhiteSpace (rev a) @ b" by (simp add: b_def)
    with False have "last b = last (rev a)" by (metis last_appendR)
    also have "\<dots> = hd a" using an by (simp add: last_rev)
    finally have lb: "last b = hd a" .
    from False show ?thesis
      by (simp add: t isTrimmed_def hd_rev last_rev lb ha hb)
  qed
qed

lemma trimmed_https: "isTrimmed x \<Longrightarrow> isTrimmed (''https://'' @ x)"
  by (cases "x = []") (simp_all add: isTrimmed_def isWhiteSpace_def)

lemma trimmed_www: "isTrimmed x \<Longrightarrow> isTrimmed (''www.'' @ x)"
  by (cases "x = []") (simp_all add: isTrimmed_def isWhiteSpace_def)

lemma https_matches: "matchesHttpScheme (''https://'' @ x)"
  by (simp add: matchesHttpScheme_def toLowerCase_def toLowerChar_def)

lemma normalizeUrl_shape:
  "(normalizeUrl u = trim u \<and> matchesHttpScheme (trim u)) \<or>
   normalizeUrl u = ''https://'' @ trim u \<or>
   normalizeUrl u = ''https://'' @ ''www.'' @ trim u"
  by (simp add: normalizeUrl_def Let_def)

lemma normalizeUrl_trimmed: "isTrimmed (normalizeUrl u)"
  using normalizeUrl_shape [of u] trim_is_trimmed [of u]
    trimmed_https [of "trim u"] trimmed_https [OF trimmed_www, of "trim u"]
  by auto

lemma normalizeUrl_matches: "matchesHttpScheme (normalizeUrl u)"
  using normalizeUrl_shape [of u] https_matches [of "trim u"] https_matches [of "''www.'' @ trim u"]
  by auto

text \<open>
  Claim C10.  \<open>normalizeUrl\<close> is idempotent: its result has no white space at either end
  and begins with a scheme, so a second pass returns it as it is.  Hence the cache key of
  an already normalised URL is the cache key of the raw input.
\<close>

theorem normalizeUrl_idempotent:
  "normalizeUrl (normalizeUrl u) = normalizeUrl u \<and>
   getCacheKey (normalizeUrl u) = getCacheKey u"
proof -
  have "trim (normalizeUrl u) = normalizeUrl u"
    by (rule trim_fixes_trimmed) (rule normalizeUrl_trimmed)
  then have "normalizeUrl (normalizeUrl u) = normalizeUrl u"
    using normalizeUrl_matches [of u] by (simp add: normalizeUrl_def [of "normalizeUrl u"] Let_def)
  then show ?thesis by (simp add: getCacheKey_def)
qed

theorem normalizeUrl_idempotent_witness:
  "normalizeUrl (normalizeUrl ''  example.com/a  '') = ''https://www.example.com/a'' \<and>
   getCacheKey (normalizeUrl ''  example.com/a  '') = getCacheKey ''  example.com/a  '' \<and>
   getCacheKey ''  example.com/a  '' = ''header-analysis:https://www.example.com/a''"
proof -
  have "normalizeUrl ''  example.com/a  '' = ''https://www.example.com/a''"
    by code_simp
  then show ?thesis
    using normalizeUrl_idempotent [of "''  example.com/a  ''"] by (simp add: getCacheKey_def)
qed

subsection \<open>fetchWithSmartFallback\<close>

text \<open>
  Claim C1.  The claim asks for the bot-protection outcome on the statuses 429 and 503.
  The function returns as soon as the status is not 200, before it calls
  \<open>isBotProtectionResponse\<close>: on 429 and 503 the outcome is \<open>Non200StatusWarning\<close>,
  although \<open>isBotProtectionResponse\<close> has an answer for both statuses.
\<close>

theorem status_429_503_is_non200:
  assumes "protocol u \<noteq> ''http:''" and "isAssetURL u = None"
    and "fetch (href u) = Inr res" and "status res = 429 \<or> status res = 503"
  shows "fetchWithSmartFallback fetch u =
           ([href u], Inr (Non200StatusWarning (status res) (statusText res)
                             (non200Message (status res) (statusText res)))) \<and>
         isBotProtectionResponse (headersToObject (headers res)) (status res) \<noteq> None"
  using assms by (auto simp add: fetchWithSmartFallback_def Let_def isBotProtectionResponse_def truthy_def)

theorem status_429_503_is_non200_witness:
  "fetchWithSmartFallback unavailableNetwork exampleUrl =
     ([''https://example.com/''],
      Inr (Non200StatusWarning 503 ''Service Unavailable''
             (non200Message 503 ''Service Unavailable''))) \<and>
   isBotProtectionResponse [] 503 =
     Some ''Service Unavailable (503) - Possible WAF/bot protection''"
proof -
  have h1: "protocol exampleUrl \<noteq> ''http:''" by (simp add: exampleUrl_def)
  have h2: "isAssetURL exampleUrl = None" by code_simp
  have h3: "unavailableNetwork (href exampleUrl) = Inr unavailableResponse"
    by (simp add: unavailableNetwork_def)
  have h4: "status unavailableResponse = 429 \<or> status unavailableResponse = 503"
    by (simp add: unavailableResponse_def)
  have b: "isBotProtectionResponse [] 503 =
     Some ''Service Unavailable (503) - Possible WAF/bot protection''" by code_simp
  from status_429_503_is_non200
    [where u = exampleUrl and fetch = unavailableNetwork and res = unavailableResponse,
     OF h1 h2 h3 h4] b
  show ?thesis
    by (simp add: exampleUrl_def unavailableResponse_def)
qed

lemma tryAltPaths_skip:
  assumes "org \<noteq> ''null''"
    and "\<forall>q \<in> set before.
           (case fetch (org @ q) of
              Inl e \<Rightarrow> True
            | Inr r \<Rightarrow> \<not> (status r = 200 \<and> 5 \<le> length (headersToObject (headers r))))"
  shows "tryAltPaths fetch org (before @ paths) =
           (map (\<lambda>q. org @ q) before @ fst (tryAltPaths fetch org paths),
            snd (tryAltPaths fetch org paths))"
  using assms
  by (induction before) (auto simp add: newURL_def Let_def split: sum.splits prod.splits)

lemma tryAltPaths_accept:
  assumes "org \<noteq> ''null''" and "fetch (org @ path) = Inr r"
    and "status r = 200" and "5 \<le> length (headersToObject (headers r))"
  shows "tryAltPaths fetch org (path # paths) =
           ([org @ path],
            Some (SuccessfulFetchResult r (headersToObject (headers r))
                    (contentTypeOf (headersToObject (headers r)))))"
  using assms by (simp add: newURL_def Let_def)


text \<open>
  Claim C4.  When the first response has status 200, fewer than five headers, and none
  of the earlier checks fires, the alternate paths are requested in order; the first one
  that answers with status 200 and at least five headers ends the search, and its
  headers are the ones returned.  The requests made are the first probe and the
  alternate paths up to that one.
\<close>

theorem escalation_returns_first_rich_candidate:
  assumes "protocol u \<noteq> ''http:''" and "isAssetURL u = None"
    and "fetch (href u) = Inr res" and "status res = 200"
    and "length (headersToObject (headers res)) < 5"
    and "isBotProtectionResponse (headersToObject (headers res)) (status res) = None"
    and "nonHtmlContent (contentTypeOf (headersToObject (headers res))) = None"
    and "\<not> cdnSignature (serverHeaderOf (headersToObject (headers res)))"
    and "origin u \<noteq> ''null''"
    and "altPaths = before @ path # rest"
    and "\<forall>q \<in> set before.
           (case fetch (origin u @ q) of
              Inl e \<Rightarrow> True
            | Inr r \<Rightarrow> \<not> (status r = 200 \<and> 5 \<le> length (headersToObject (headers r))))"
    and "fetch (origin u @ path) = Inr retryRes"
    and "status retryRes = 200"
    and "5 \<le> length (headersToObject (headers retryRes))"
  shows "fetchWithSmartFallback fetch u =
           (href u # map (\<lambda>q. origin u @ q) (before @ [path]),
            Inr (SuccessfulFetchResult retryRes (headersToObject (headers retryRes))
                   (contentTypeOf (headersToObject (headers retryRes)))))"
proof -
  have "tryAltPaths fetch (origin u) altPaths =
          (map (\<lambda>q. origin u @ q) before @ [origin u @ path],
           Some (SuccessfulFetchResult retryRes (headersToObject (headers retryRes))
                   (contentTypeOf (headersToObject (headers retryRes)))))"
  proof -
    have skip: "tryAltPaths fetch (origin u) (before @ path # rest) =
            (map (\<lambda>q. origin u @ q) before @ fst (tryAltPaths fetch (origin u) (path # rest)),
             snd (tryAltPaths fetch (origin u) (path # rest)))"
      using assms(9) assms(11) by (rule tryAltPaths_skip)
    have accept: "tryAltPaths fetch (origin u) (path # rest) =
            ([origin u @ path],
             Some (SuccessfulFetchResult retryRes (headersToObject (headers retryRes))
                     (contentTypeOf (headersToObject (headers retryRes)))))"
      using assms(9) assms(12-14) by (rule tryAltPaths_accept)
    show ?thesis unfolding assms(10) skip accept by simp
  qed
  with assms(1-8) show ?thesis
    by (simp add: fetchWithSmartFallback_def Let_def)
qed


theorem escalation_returns_first_rich_candidate_witness:
  "length (headersToObject (headers sparseResponse)) = 3 \<and>
   length (headersToObject (headers richResponse)) = 8 \<and>
   fetchWithSmartFallback exampleNetwork exampleUrl =
     ([''https://example.com/'', ''https://example.com/en-us/'', ''https://example.com/index.html''],
      Inr (SuccessfulFetchResult richResponse (headersToObject (headers richResponse))
             (Some ''text/html; charset=utf-8'')))"
proof -
  have h1: "protocol exampleUrl \<noteq> ''http:''" by (simp add: exampleUrl_def)
  have h2: "isAssetURL exampleUrl = None" by code_simp
  have h3: "exampleNetwork (href exampleUrl) = Inr sparseResponse"
    by (simp add: exampleNetwork_def exampleUrl_def)
  have h4: "status sparseResponse = 200" by (simp add: sparseResponse_def)
  have n3: "length (headersToObject (headers sparseResponse)) = 3" by code_simp
  then have h5: "length (headersToObject (headers sparseResponse)) < 5" by simp
  have h6: "isBotProtectionResponse (headersToObject (headers sparseResponse))
              (status sparseResponse) = None" by code_simp
  have h7: "nonHtmlContent (contentTypeOf (headersToObject (headers sparseResponse))) = None"
    by code_simp
  have h8: "\<not> cdnSignature (serverHeaderOf (headersToObject (headers sparseResponse)))"
    by code_simp
  have h9: "origin exampleUrl \<noteq> ''null''" by (simp add: exampleUrl_def)
  have h10: "altPaths = [''/en-us/''] @ ''/index.html'' # [''/home'', ''/about'']"
    by (simp add: altPaths_def)
  have h11: "\<forall>q \<in> set [''/en-us/''].
           (case exampleNetwork (origin exampleUrl @ q) of
              Inl e \<Rightarrow> True
            | Inr r \<Rightarrow> \<not> (status r = 200 \<and> 5 \<le> length (headersToObject (headers r))))"
    by (simp add: exampleNetwork_def exampleUrl_def)
  have h12: "exampleNetwork (origin exampleUrl @ ''/index.html'') = Inr richResponse"
    by (simp add: exampleNetwork_def exampleUrl_def)
  have h13: "status richResponse = 200" by (simp add: richResponse_def)
  have n8: "length (headersToObject (headers richResponse)) = 8" by code_simp
  then have h14: "5 \<le> length (headersToObject (headers richResponse))" by simp
  have ct: "contentTypeOf (headersToObject (headers richResponse)) = Some ''text/html; charset=utf-8''"
    by code_simp
  show ?thesis
    using escalation_returns_first_rich_candidate
      [OF h1 h2 h3 h4 h5 h6 h7 h8 h9 h10 h11 h12 h13 h14] n3 n8 ct
    by (simp add: exampleUrl_def)
qed

lemma find_unique:
  assumes "x \<in> set xs" and "P x" and "\<And>y. y \<in> set xs \<Longrightarrow> P y \<Longrightarrow> y = x"
  shows "find P xs = Some x"
  using assms
proof (induction xs)
  case Nil
  then show ?case by simp
next
  case (Cons a xs)
  show ?case
  proof (cases "P a")
    case True
    then have "a = x" using Cons.prems(3) by simp
    with True show ?thesis by simp
  next
    case False
    with Cons.prems(1,2) have "x \<in> set xs" by auto
    then have "find P xs = Some x" using Cons.prems(2,3) by (intro Cons.IH) simp_all
    with False show ?thesis by simp
  qed
qed

lemma assetExtensions_no_suffix:
  "\<forall>e \<in> set assetExtensions. \<forall>e' \<in> set assetExtensions. suffix e e' \<longrightarrow> e = e'"
  by code_simp

lemma assetExtensions_suffix_eq:
  assumes "e \<in> set assetExtensions" and "e' \<in> set assetExtensions" and "suffix e e'"
  shows "e = e'"
proof -
  from assetExtensions_no_suffix assms(1)
  have "\<forall>e' \<in> set assetExtensions. suffix e e' \<longrightarrow> e = e'" by (rule bspec)
  from this assms(2) have "suffix e e' \<longrightarrow> e = e'" by (rule bspec)
  with assms(3) show ?thesis by simp
qed

lemma asset_extension_unique:
  assumes "e \<in> set assetExtensions" and "e' \<in> set assetExtensions"
    and "suffix e p" and "suffix e' p"
  shows "e = e'"
proof -
  from assms(3,4) have "suffix e e' \<or> suffix e' e" by (rule suffix_same_cases)
  then show ?thesis
  proof
    assume "suffix e e'"
    with assms(1,2) show ?thesis by (rule assetExtensions_suffix_eq)
  next
    assume "suffix e' e"
    with assms(2,1) have "e' = e" by (rule assetExtensions_suffix_eq)
    then show ?thesis by simp
  qed
qed

lemma isAssetURL_ext:
  assumes "ext \<in> set assetExtensions" and "endsWith (toLowerCase (pathname u)) ext"
  shows "isAssetURL u = Some ext"
proof -
  have "find (\<lambda>e. endsWith (toLowerCase (pathname u)) e) assetExtensions = Some ext"
  proof (rule find_unique)
    show "ext \<in> set assetExtensions" by fact
    show "endsWith (toLowerCase (pathname u)) ext" by fact
  next
    fix y
    assume y: "y \<in> set assetExtensions" "endsWith (toLowerCase (pathname u)) y"
    from y(1) assms(1) y(2) assms(2) show "y = ext"
      unfolding endsWith_def by (rule asset_extension_unique)
  qed
  then show ?thesis by (simp add: isAssetURL_def Let_def)
qed

text \<open>
  Claim C5, amended.  For a URL whose scheme is not plain http and whose lower-cased
  path ends in one of the asset extensions, the outcome is \<open>AssetURLWarning\<close> with
  that extension, and no request is made.
\<close>

theorem asset_url_without_probe:
  assumes "protocol u \<noteq> ''http:''"
    and "ext \<in> set assetExtensions"
    and "endsWith (toLowerCase (pathname u)) ext"
  shows "fetchWithSmartFallback fetch u = ([], Inr (AssetURLWarning ext (assetMessage ext)))"
  using assms(1) isAssetURL_ext [OF assms(2,3)]
  by (simp add: fetchWithSmartFallback_def)

theorem asset_url_without_probe_witness:
  "fetchWithSmartFallback exampleNetwork assetUrl =
     ([], Inr (AssetURLWarning ''.png'' (assetMessage ''.png'')))"
proof -
  have h1: "protocol assetUrl \<noteq> ''http:''" by (simp add: assetUrl_def)
  have h2: "''.png'' \<in> set assetExtensions" by (simp add: assetExtensions_def)
  have h3: "endsWith (toLowerCase (pathname assetUrl)) ''.png''" by code_simp
  show ?thesis using asset_url_without_probe [OF h1 h2 h3] .
qed

text \<open>
  Claim C5 as stated fails on a plain http URL: the scheme is tested before the
  extension, so an asset path over http gives \<open>HTTPOnlyWarning\<close>.
\<close>

theorem asset_over_http_counterexample:
  "''.png'' \<in> set assetExtensions \<and> endsWith (pathname httpAssetUrl) ''.png'' \<and>
   fetchWithSmartFallback exampleNetwork httpAssetUrl \<noteq>
     ([], Inr (AssetURLWarning ''.png'' (assetMessage ''.png''))) \<and>
   fetchWithSmartFallback exampleNetwork httpAssetUrl = ([], Inr (HTTPOnlyWarning httpOnlyMessage))"
  by (simp add: assetExtensions_def httpAssetUrl_def endsWith_def suffix_to_prefix
        fetchWithSmartFallback_def)


lemma tryAltPaths_found:
  "snd (tryAltPaths fetch org paths) = Some found \<Longrightarrow>
   \<exists>r. found = SuccessfulFetchResult r (headersToObject (headers r))
                 (contentTypeOf (headersToObject (headers r))) \<and>
       status r = 200 \<and> 5 \<le> length (headersToObject (headers r))"
proof (induction paths)
  case Nil
  then show ?case by simp
next
  case (Cons path paths)
  show ?case
  proof (cases "newURL path org")
    case None
    with Cons show ?thesis by simp
  next
    case (Some retryUrl)
    show ?thesis
    proof (cases "fetch retryUrl")
      case (Inl e)
      with Some Cons show ?thesis by (simp split: prod.splits)
    next
      case (Inr retryRes)
      show ?thesis
      proof (cases "status retryRes = 200 \<and> 5 \<le> length (headersToObject (headers retryRes))")
        case True
        with Some Inr Cons.prems show ?thesis by (auto simp add: Let_def)
      next
        case False
        with Some Inr Cons show ?thesis by (auto simp add: Let_def split: prod.splits)
      qed
    qed
  qed
qed

lemma escalation_result:
  assumes "protocol u \<noteq> ''http:''" and "isAssetURL u = None"
    and "fetch (href u) = Inr res" and "status res = 200"
    and "length (headersToObject (headers res)) < 5"
    and "isBotProtectionResponse (headersToObject (headers res)) (status res) = None"
    and "nonHtmlContent (contentTypeOf (headersToObject (headers res))) = None"
    and "\<not> cdnSignature (serverHeaderOf (headersToObject (headers res)))"
  shows "snd (fetchWithSmartFallback fetch u) =
           (case snd (tryAltPaths fetch (origin u) altPaths) of
              Some found \<Rightarrow> Inr found
            | None \<Rightarrow>
                Inr (CDNDetectionResult
                       (if serverHeaderOf (headersToObject (headers res)) = [] then ''unknown''
                        else serverHeaderOf (headersToObject (headers res)))
                       (length (headersToObject (headers res))) tooFewHeadersMessage))"
  using assms
  by (simp add: fetchWithSmartFallback_def Let_def split: prod.splits option.splits)

text \<open>
  Claim C9.  Once the search over the alternate paths is entered, a candidate that is
  reached (every path before it fails or is sparse) is returned as the successful result
  exactly when its status is 200 and it has at least five headers.  Nothing else about
  the candidate is asked: the witness is a candidate that the bot-protection test, the
  content-type test and the CDN test would each have rejected as a first response.
\<close>

theorem escalation_accepts_on_status_and_count_only:
  assumes "protocol u \<noteq> ''http:''" and "isAssetURL u = None"
    and "fetch (href u) = Inr res" and "status res = 200"
    and "length (headersToObject (headers res)) < 5"
    and "isBotProtectionResponse (headersToObject (headers res)) (status res) = None"
    and "nonHtmlContent (contentTypeOf (headersToObject (headers res))) = None"
    and "\<not> cdnSignature (serverHeaderOf (headersToObject (headers res)))"
    and "origin u \<noteq> ''null''"
    and "altPaths = before @ path # rest"
    and "\<forall>q \<in> set before.
           (case fetch (origin u @ q) of
              Inl e \<Rightarrow> True
            | Inr r \<Rightarrow> \<not> (status r = 200 \<and> 5 \<le> length (headersToObject (headers r))))"
    and "fetch (origin u @ path) = Inr candidate"
  shows "snd (fetchWithSmartFallback fetch u) =
           Inr (SuccessfulFetchResult candidate (headersToObject (headers candidate))
                  (contentTypeOf (headersToObject (headers candidate))))
         \<longleftrightarrow> status candidate = 200 \<and> 5 \<le> length (headersToObject (headers candidate))"
proof -
  note er = escalation_result [where u = u and fetch = fetch and res = res, OF assms(1-8)]
  show ?thesis
  proof
    assume ok: "status candidate = 200 \<and> 5 \<le> length (headersToObject (headers candidate))"
    have skip: "tryAltPaths fetch (origin u) (before @ path # rest) =
            (map (\<lambda>q. origin u @ q) before @ fst (tryAltPaths fetch (origin u) (path # rest)),
             snd (tryAltPaths fetch (origin u) (path # rest)))"
      using assms(9) assms(11) by (rule tryAltPaths_skip)
    have accept: "tryAltPaths fetch (origin u) (path # rest) =
            ([origin u @ path],
             Some (SuccessfulFetchResult candidate (headersToObject (headers candidate))
                     (contentTypeOf (headersToObject (headers candidate)))))"
      using assms(9) assms(12) ok by (intro tryAltPaths_accept) simp_all
    have "snd (tryAltPaths fetch (origin u) altPaths) =
            Some (SuccessfulFetchResult candidate (headersToObject (headers candidate))
                    (contentTypeOf (headersToObject (headers candidate))))"
      unfolding assms(10) skip accept by simp
    then show "snd (fetchWithSmartFallback fetch u) =
             Inr (SuccessfulFetchResult candidate (headersToObject (headers candidate))
                    (contentTypeOf (headersToObject (headers candidate))))"
      unfolding er by simp
  next
    assume "snd (fetchWithSmartFallback fetch u) =
             Inr (SuccessfulFetchResult candidate (headersToObject (headers candidate))
                    (contentTypeOf (headersToObject (headers candidate))))"
    then have "snd (tryAltPaths fetch (origin u) altPaths) =
            Some (SuccessfulFetchResult candidate (headersToObject (headers candidate))
                    (contentTypeOf (headersToObject (headers candidate))))"
      unfolding er by (simp split: option.splits)
    then obtain r' where
        "SuccessfulFetchResult candidate (headersToObject (headers candidate))
           (contentTypeOf (headersToObject (headers candidate))) =
         SuccessfulFetchResult r' (headersToObject (headers r'))
           (contentTypeOf (headersToObject (headers r')))"
        "status r' = 200 \<and> 5 \<le> length (headersToObject (headers r'))"
      using tryAltPaths_found by blast
    then show "status candidate = 200 \<and> 5 \<le> length (headersToObject (headers candidate))"
      by simp
  qed
qed

theorem escalation_accepts_on_status_and_count_only_witness:
  "isBotProtectionResponse (headersToObject (headers edgeCandidate)) (status edgeCandidate) =
     Some ''Akamai Bot Protection'' \<and>
   nonHtmlContent (contentTypeOf (headersToObject (headers edgeCandidate))) =
     Some ''application/json'' \<and>
   cdnSignature (serverHeaderOf (headersToObject (headers edgeCandidate))) \<and>
   snd (fetchWithSmartFallback edgeNetwork exampleUrl) =
     Inr (SuccessfulFetchResult edgeCandidate (headersToObject (headers edgeCandidate))
            (Some ''application/json''))"
proof -
  have b: "isBotProtectionResponse (headersToObject (headers edgeCandidate)) (status edgeCandidate) =
     Some ''Akamai Bot Protection''" by code_simp
  have n: "nonHtmlContent (contentTypeOf (headersToObject (headers edgeCandidate))) =
     Some ''application/json''" by code_simp
  have c: "cdnSignature (serverHeaderOf (headersToObject (headers edgeCandidate)))" by code_simp
  have ct: "contentTypeOf (headersToObject (headers edgeCandidate)) = Some ''application/json''"
    by code_simp
  have h1: "protocol exampleUrl \<noteq> ''http:''" by (simp add: exampleUrl_def)
  have h2: "isAssetURL exampleUrl = None" by code_simp
  have h3: "edgeNetwork (href exampleUrl) = Inr sparseResponse"
    by (simp add: edgeNetwork_def exampleUrl_def)
  have h4: "status sparseResponse = 200" by (simp add: sparseResponse_def)
  have h5: "length (headersToObject (headers sparseResponse)) < 5" by code_simp
  have h6: "isBotProtectionResponse (headersToObject (headers sparseResponse))
              (status sparseResponse) = None" by code_simp
  have h7: "nonHtmlContent (contentTypeOf (headersToObject (headers sparseResponse))) = None"
    by code_simp
  have h8: "\<not> cdnSignature (serverHeaderOf (headersToObject (headers sparseResponse)))"
    by code_simp
  have h9: "origin exampleUrl \<noteq> ''null''" by (simp add: exampleUrl_def)
  have h10: "altPaths = [] @ ''/en-us/'' # [''/index.html'', ''/home'', ''/about'']"
    by (simp add: altPaths_def)
  have h11: "\<forall>q \<in> set [].
           (case edgeNetwork (origin exampleUrl @ q) of
              Inl e \<Rightarrow> True
            | Inr r \<Rightarrow> \<not> (status r = 200 \<and> 5 \<le> length (headersToObject (headers r))))"
    by simp
  have h12: "edgeNetwork (origin exampleUrl @ ''/en-us/'') = Inr edgeCandidate"
    by (simp add: edgeNetwork_def exampleUrl_def)
  have s: "status edgeCandidate = 200" by (simp add: edgeCandidate_def)
  have l: "5 \<le> length (headersToObject (headers edgeCandidate))" by code_simp
  from escalation_accepts_on_status_and_count_only
    [where u = exampleUrl and fetch = edgeNetwork and res = sparseResponse
       and before = "[]" and path = "''/en-us/''" and rest = "[''/index.html'', ''/home'', ''/about'']"
       and candidate = edgeCandidate, OF h1 h2 h3 h4 h5 h6 h7 h8 h9 h10 h11 h12] s l ct
  have "snd (fetchWithSmartFallback edgeNetwork exampleUrl) =
     Inr (SuccessfulFetchResult edgeCandidate (headersToObject (headers edgeCandidate))
            (Some ''application/json''))"
    by simp
  with b n c show ?thesis by simp
qed

section \<open>Properties of header-processor.ts\<close>

lemma countCookie_bounds:
  assumes "foldl countCookie (a, b, c) xs = (a', b', c')"
  shows "a \<le> a' \<and> a' \<le> a + int (length xs) \<and>
         b \<le> b' \<and> b' \<le> b + int (length xs) \<and>
         c \<le> c' \<and> c' \<le> c + int (length xs)"
  using assms
proof (induction xs arbitrary: a b c)
  case Nil
  then show ?case by simp
next
  case (Cons x xs)
  obtain a1 b1 c1 where step: "countCookie (a, b, c) x = (a1, b1, c1)"
    by (cases "countCookie (a, b, c) x") auto
  then have s: "a \<le> a1 \<and> a1 \<le> a + 1 \<and> b \<le> b1 \<and> b1 \<le> b + 1 \<and> c \<le> c1 \<and> c1 \<le> c + 1"
    by (auto simp add: countCookie_def Let_def split: if_splits)
  from Cons.prems step have "foldl countCookie (a1, b1, c1) xs = (a', b', c')" by simp
  from Cons.IH [OF this] s show ?case by simp
qed

text \<open>
  Claim C8.  The four counts of \<open>cookieStats\<close> are not negative, the three attribute
  counts are at most the total, and without a set-cookie header all four are zero.
\<close>

theorem cookieStats_bounds:
  "(let stats = cookieStats (metadata (preprocessHeaders hs))
    in 0 \<le> total' stats \<and> 0 \<le> secure stats \<and> 0 \<le> httpOnly stats \<and> 0 \<le> sameSite stats \<and>
       secure stats \<le> total' stats \<and> httpOnly stats \<le> total' stats \<and>
       sameSite stats \<le> total' stats) \<and>
   (map_of hs ''set-cookie'' = None \<longrightarrow>
      cookieStats (metadata (preprocessHeaders hs)) =
        \<lparr>total' = 0, secure = 0, httpOnly = 0, sameSite = 0\<rparr>)"
proof -
  have "0 \<le> total' (analyzeCookies v) \<and> 0 \<le> secure (analyzeCookies v) \<and>
        0 \<le> httpOnly (analyzeCookies v) \<and> 0 \<le> sameSite (analyzeCookies v) \<and>
        secure (analyzeCookies v) \<le> total' (analyzeCookies v) \<and>
        httpOnly (analyzeCookies v) \<le> total' (analyzeCookies v) \<and>
        sameSite (analyzeCookies v) \<le> total' (analyzeCookies v)" for v
  proof (cases v)
    case None
    then show ?thesis by (simp add: analyzeCookies_def)
  next
    case (Some h)
    define cookies where "cookies = filter (\<lambda>piece. piece \<noteq> []) (splitCookies [] h)"
    obtain a b c where f: "foldl countCookie (0, 0, 0) cookies = (a, b, c)"
      by (cases "foldl countCookie (0, 0, 0) cookies") auto
    from countCookie_bounds [OF f] f Some show ?thesis
      by (simp add: analyzeCookies_def Let_def cookies_def [symmetric])
  qed
  then show ?thesis by (simp add: preprocessHeaders_def Let_def analyzeCookies_def)
qed

theorem cookieStats_bounds_witness:
  "cookieStats (metadata (preprocessHeaders
      [(''set-cookie'', ''a=1; Secure; HttpOnly, b=2; SameSite=Lax'')])) =
     \<lparr>total' = 2, secure = 1, httpOnly = 1, sameSite = 1\<rparr> \<and>
   cookieStats (metadata (preprocessHeaders [(''server'', ''nginx'')])) =
     \<lparr>total' = 0, secure = 0, httpOnly = 0, sameSite = 0\<rparr>"
proof -
  have a: "cookieStats (metadata (preprocessHeaders
      [(''set-cookie'', ''a=1; Secure; HttpOnly, b=2; SameSite=Lax'')])) =
     \<lparr>total' = 2, secure = 1, httpOnly = 1, sameSite = 1\<rparr>" by code_simp
  have n: "map_of [(''server'', ''nginx'')] ''set-cookie'' = None" by simp
  from a n cookieStats_bounds [of "[(''server'', ''nginx'')]"] show ?thesis by simp
qed

section \<open>Properties of analyzer.ts\<close>

subsection \<open>The try block\<close>

lemma stripFences_trimmed: "isTrimmed (stripFences t)"
  by (simp add: stripFences_def Let_def trim_is_trimmed)

lemma endsWith_single: "endsWith s [c] \<longleftrightarrow> s \<noteq> [] \<and> last s = c"
  by (cases s rule: rev_cases) (auto simp add: endsWith_def)

lemma complete_not_quoted:
  assumes "isTrimmed r" and "\<not> isTruncated r"
  shows "\<not> endsWith r [dquote]"
proof -
  from assms(1) have "trim r = r" by (rule trim_fixes_trimmed)
  with assms(2) have "endsWith r ''}'' \<or> endsWith r '']''"
    by (simp add: isTruncated_def Let_def)
  then show ?thesis by (auto simp add: endsWith_single dquote_def)
qed

text \<open>What the try block computes, with the branch for a doubly encoded reply gone.\<close>

lemma parseAnalysis_unfold:
  "parseAnalysis parse t =
     (if t = [] then Inl (Error ''Invalid response structure'')
      else if isTruncated (stripFences t)
      then Inl (Error ''AI response JSON appears to be truncated or incomplete'')
      else case parse (stripFences t) of
             Inr analysis \<Rightarrow> validate analysis
           | Inl errorMsg \<Rightarrow>
               if isControlCharacterError errorMsg
               then (case parse (escapeControlChars False False None (stripFences t)) of
                       Inl msg \<Rightarrow> Inl (SyntaxError msg)
                     | Inr analysis \<Rightarrow> validate analysis)
               else Inl (SyntaxError errorMsg))"
  using complete_not_quoted [OF stripFences_trimmed, of t]
  by (simp add: parseAnalysis_def Let_def)

lemma validate_Inr: "validate v = Inr w \<Longrightarrow> w = v \<and> validShape v"
  by (simp add: validate_def split: if_splits)

lemma validate_invalid: "\<not> validShape v \<Longrightarrow> \<exists>thrown. validate v = Inl thrown"
  by (simp add: validate_def)

lemma parseAnalysis_valid: "parseAnalysis parse t = Inr v \<Longrightarrow> validShape v"
  by (auto simp add: parseAnalysis_unfold split: if_splits sum.splits dest: validate_Inr)

lemma degraded_valid: "validShape degradedResult"
  by (simp add: validShape_def degradedResult_def property_def isNumber_def isString_def isArray_def)

text \<open>
  Claim C2.  For every parser and every reply, \<open>recover\<close> returns a value with a
  numeric score, a string summary and an array of issues: whatever is thrown in the
  \<open>try\<close> block is caught.  An empty or truncated reply, a parse error without the
  signature of a control character, a repaired text that still does not parse, and a
  parsed value of the wrong shape each give the fixed degraded result, whose score is 50,
  whose summary is the stock sentence and whose only issue is named Analysis Error and
  has severity medium.
\<close>

theorem recover_never_throws:
  "validShape (recover parse t) \<and>
   (\<forall>thrown. parseAnalysis parse t = Inl thrown \<longrightarrow> recover parse t = degradedResult) \<and>
   (t = [] \<or> isTruncated (stripFences t) \<longrightarrow> recover parse t = degradedResult) \<and>
   (\<forall>msg. parse (stripFences t) = Inl msg \<and> \<not> isControlCharacterError msg \<longrightarrow>
      recover parse t = degradedResult) \<and>
   (\<forall>msg msg'. parse (stripFences t) = Inl msg \<and>
      parse (escapeControlChars False False None (stripFences t)) = Inl msg' \<longrightarrow>
      recover parse t = degradedResult) \<and>
   (\<forall>v. parse (stripFences t) = Inr v \<and> \<not> validShape v \<longrightarrow> recover parse t = degradedResult) \<and>
   property degradedResult ''score'' = Some (JNum 50) \<and>
   property degradedResult ''summary'' =
     Some (JStr ''Unable to complete AI analysis. Basic header check shows moderate security concerns.'') \<and>
   (\<exists>issue. property degradedResult ''issues'' = Some (JArr [issue]) \<and>
      property issue ''name'' = Some (JStr ''Analysis Error'') \<and>
      property issue ''severity'' = Some (JStr ''medium''))"
proof -
  have c1: "validShape (recover parse t)"
    by (cases "parseAnalysis parse t")
       (simp_all add: recover_def degraded_valid parseAnalysis_valid)
  have c2: "\<forall>thrown. parseAnalysis parse t = Inl thrown \<longrightarrow> recover parse t = degradedResult"
    by (simp add: recover_def)
  have c3: "t = [] \<or> isTruncated (stripFences t) \<longrightarrow> recover parse t = degradedResult"
    by (auto simp add: recover_def parseAnalysis_unfold)
  have c4: "\<forall>msg. parse (stripFences t) = Inl msg \<and> \<not> isControlCharacterError msg \<longrightarrow>
      recover parse t = degradedResult"
    by (auto simp add: recover_def parseAnalysis_unfold)
  have c5: "\<forall>msg msg'. parse (stripFences t) = Inl msg \<and>
      parse (escapeControlChars False False None (stripFences t)) = Inl msg' \<longrightarrow>
      recover parse t = degradedResult"
    by (auto simp add: recover_def parseAnalysis_unfold)
  have c6: "\<forall>v. parse (stripFences t) = Inr v \<and> \<not> validShape v \<longrightarrow>
      recover parse t = degradedResult"
  proof (intro allI impI)
    fix v assume a: "parse (stripFences t) = Inr v \<and> \<not> validShape v"
    then obtain thrown where "validate v = Inl thrown" using validate_invalid by blast
    with a show "recover parse t = degradedResult"
      by (auto simp add: recover_def parseAnalysis_unfold)
  qed
  have c7: "property degradedResult ''score'' = Some (JNum 50)"
    by (simp add: degradedResult_def property_def)
  have c7': "property degradedResult ''summary'' =
     Some (JStr ''Unable to complete AI analysis. Basic header check shows moderate security concerns.'')"
    by (simp add: degradedResult_def property_def)
  have c8: "\<exists>issue. property degradedResult ''issues'' = Some (JArr [issue]) \<and>
      property issue ''name'' = Some (JStr ''Analysis Error'') \<and>
      property issue ''severity'' = Some (JStr ''medium'')"
    by (simp add: degradedResult_def property_def)
  from c1 c2 c3 c4 c5 c6 c7 c7' c8 show ?thesis by (intro conjI)
qed

theorem recover_never_throws_witness:
  "isTruncated (stripFences truncatedReply) \<and> recover JSON_parse truncatedReply = degradedResult"
proof -
  have tr: "isTruncated (stripFences truncatedReply)" by code_simp
  with recover_never_throws [of JSON_parse truncatedReply] show ?thesis by simp
qed

subsection \<open>Code fences\<close>

lemma includesStr_sublist: "includesStr s p \<longleftrightarrow> sublist p s"
  by (induction s) (simp_all add: sublist_Cons_right)

lemma stripOpeningFences_none:
  "\<not> sublist (fence @ ''jso'') s \<Longrightarrow> stripOpeningFences s = s"
proof (induction s)
  case Nil
  then show ?case by simp
next
  case (Cons c cs)
  from Cons.prems have "\<not> prefix (fence @ ''jso'') (c # cs)" and "\<not> sublist (fence @ ''jso'') cs"
    by (simp_all add: sublist_Cons_right)
  with Cons.IH show ?case by simp
qed

lemma sublist_trim: "sublist (trim t) t"
proof -
  have "suffix (dropWhile isWhiteSpace (rev (dropWhile isWhiteSpace t)))
          (rev (dropWhile isWhiteSpace t))"
    by (rule suffix_dropWhile)
  then have "prefix (trim t) (dropWhile isWhiteSpace t)"
    by (simp add: trim_def suffix_to_prefix)
  then have "sublist (trim t) (dropWhile isWhiteSpace t)" by simp
  moreover have "sublist (dropWhile isWhiteSpace t) t"
    using suffix_dropWhile by (rule suffix_imp_sublist)
  ultimately show ?thesis by (rule sublist_order.order.trans)
qed

lemma trim_final_line_feed: "trim (t @ [CHR 0x0A]) = trim t"
proof (cases "\<forall>c \<in> set t. isWhiteSpace c")
  case True
  then have d1: "dropWhile isWhiteSpace t = []" by simp
  from True have "\<forall>c \<in> set (t @ [CHR 0x0A]). isWhiteSpace c"
    by (simp add: isWhiteSpace_def)
  then have d2: "dropWhile isWhiteSpace (t @ [CHR 0x0A]) = []"
    by (simp only: dropWhile_eq_Nil_conv)
  show ?thesis by (simp only: trim_def d1 d2)
next
  case False
  then have "dropWhile isWhiteSpace (t @ [CHR 0x0A]) = dropWhile isWhiteSpace t @ [CHR 0x0A]"
    by (auto simp add: dropWhile_append1)
  then show ?thesis by (simp add: trim_def isWhiteSpace_def)
qed

lemma trim_first_line_feed: "trim (CHR 0x0A # t) = trim t"
  by (simp add: trim_def isWhiteSpace_def)

lemma trim_optional_after: "optionalLineFeed o2 \<Longrightarrow> trim (t @ o2) = trim t"
  by (auto simp add: optionalLineFeed_def trim_final_line_feed)

lemma no_opening_fence_before_closing:
  assumes "\<not> sublist fence t" and "optionalLineFeed o2"
  shows "\<not> sublist (fence @ ''jso'') (t @ o2 @ fence)"
proof
  assume "sublist (fence @ ''jso'') (t @ o2 @ fence)"
  then consider
      (left) "sublist (fence @ ''jso'') t"
    | (right) "sublist (fence @ ''jso'') (o2 @ fence)"
    | (split) xs1 xs2 where "fence @ ''jso'' = xs1 @ xs2" "suffix xs1 t" "prefix xs2 (o2 @ fence)"
    by (auto simp add: sublist_append)
  then show False
  proof cases
    case left
    have "sublist fence (fence @ ''jso'')" by simp
    from this left have "sublist fence t" by (rule sublist_order.order.trans)
    with assms(1) show False by simp
  next
    case right
    then have "length (fence @ ''jso'') \<le> length (o2 @ fence)"
      by (rule sublist_length_le)
    with assms(2) show False by (auto simp add: fence_def optionalLineFeed_def)
  next
    case split
    show False
    proof (cases "xs2 = []")
      case True
      with split(1,2) have "sublist (fence @ ''jso'') t" by simp
      moreover have "sublist fence (fence @ ''jso'')" by simp
      ultimately have "sublist fence t" by (rule sublist_order.order.trans [rotated])
      with assms(1) show False by simp
    next
      case False
      with split(1) have "last xs2 = last (fence @ ''jso'')" by simp
      then have "last xs2 = CHR ''o''" by simp
      moreover from False have "last xs2 \<in> set xs2" by simp
      moreover from split(3) have "set xs2 \<subseteq> set (o2 @ fence)" by (rule set_mono_prefix)
      ultimately have "CHR ''o'' \<in> set (o2 @ fence)" by auto
      with assms(2) show False by (auto simp add: fence_def optionalLineFeed_def)
    qed
  qed
qed

lemma stripClosingFence_final:
  "stripClosingFence (s @ fence) = s"
proof -
  have "\<not> suffix (fence @ [CHR 0x0A]) (s @ fence)"
    by (simp add: fence_def suffix_def)
  moreover have "suffix fence (s @ fence)" by (simp add: suffix_def)
  ultimately show ?thesis unfolding stripClosingFence_def by (simp add: fence_def)
qed

lemma suffix_no_opening_fence:
  "suffix s' s \<Longrightarrow> \<not> sublist (fence @ ''jso'') s \<Longrightarrow> \<not> sublist (fence @ ''jso'') s'"
  using sublist_order.order.trans suffix_imp_sublist by blast

text \<open>The text between the fences, after the two replacements and the trimming.\<close>

lemma strip_inside:
  assumes nf: "\<not> sublist fence t" and o2: "optionalLineFeed o2"
    and r: "r = t @ o2 @ fence \<or> r = dropOptional (CHR 0x0A) (t @ o2 @ fence)"
  shows "trim (stripClosingFence (stripOpeningFences r)) = trim t"
proof -
  have nof: "\<not> sublist (fence @ ''jso'') (t @ o2 @ fence)"
    using nf o2 by (rule no_opening_fence_before_closing)
  consider (same) "r = t @ o2 @ fence"
    | (cut) t' where "t = CHR 0x0A # t'" "r = t' @ o2 @ fence"
    | (empty) "t = []" "o2 = [CHR 0x0A]" "r = fence"
  proof (cases "r = t @ o2 @ fence")
    case True
    then show ?thesis by (rule that(1))
  next
    case False
    with r have d: "r = dropOptional (CHR 0x0A) (t @ o2 @ fence)" by simp
    show ?thesis
    proof (cases t)
      case Nil
      with d False o2 have "o2 = [CHR 0x0A]" "r = fence"
        by (auto simp add: dropOptional_def optionalLineFeed_def fence_def)
      with Nil show ?thesis by (intro that(3))
    next
      case (Cons c t')
      with d False have "c = CHR 0x0A" "r = t' @ o2 @ fence"
        by (auto simp add: dropOptional_def split: if_splits)
      with Cons show ?thesis by (intro that(2)) simp_all
    qed
  qed
  then show ?thesis
  proof cases
    case same
    with nof have "stripOpeningFences r = (t @ o2) @ fence"
      by (simp add: stripOpeningFences_none)
    then show ?thesis using o2 by (simp only: stripClosingFence_final trim_optional_after)
  next
    case cut
    have "suffix (t' @ o2 @ fence) (t @ o2 @ fence)" using cut(1) by (simp add: suffix_def)
    from this nof have "\<not> sublist (fence @ ''jso'') (t' @ o2 @ fence)"
      by (rule suffix_no_opening_fence)
    with cut(2) have "stripOpeningFences r = (t' @ o2) @ fence"
      by (simp add: stripOpeningFences_none)
    then have "trim (stripClosingFence (stripOpeningFences r)) = trim t'"
      using o2 by (simp only: stripClosingFence_final trim_optional_after)
    with cut(1) show ?thesis by (simp only: trim_first_line_feed)
  next
    case empty
    have "\<not> sublist (fence @ ''jso'') fence"
      using sublist_length_le [of "fence @ ''jso''" fence] by (auto simp add: fence_def)
    with empty(3) have "stripOpeningFences r = [] @ fence"
      by (simp add: stripOpeningFences_none)
    then have "stripClosingFence (stripOpeningFences r) = []"
      by (simp only: stripClosingFence_final)
    with empty(1) show ?thesis by simp
  qed
qed

lemma stripOpeningFences_json:
  "stripOpeningFences (fence @ ''json'' @ rest) =
     stripOpeningFences (dropOptional (CHR 0x0A) rest)"
  by (simp add: fence_def dropOptional_def)

lemma dropOptional_line_feed: "dropOptional (CHR 0x0A) (CHR 0x0A # rest) = rest"
  by (simp add: dropOptional_def)

lemma stripFences_no_fence:
  assumes "\<not> sublist fence t"
  shows "stripFences t = trim t"
proof -
  have "\<not> prefix fence (trim t)"
  proof
    assume "prefix fence (trim t)"
    then have "sublist fence (trim t)" by simp
    from this sublist_trim have "sublist fence t" by (rule sublist_order.order.trans)
    with assms show False by simp
  qed
  then show ?thesis by (simp add: stripFences_def Let_def startsWith_def)
qed

lemma stripFences_json_fenced:
  assumes nf: "\<not> sublist fence t" and o1: "optionalLineFeed o1" and o2: "optionalLineFeed o2"
  shows "stripFences (fence @ ''json'' @ o1 @ t @ o2 @ fence) = trim t"
proof -
  let ?w = "fence @ ''json'' @ o1 @ t @ o2 @ fence"
  have "isTrimmed ?w"
    by (simp add: isTrimmed_def fence_def isWhiteSpace_def)
  then have tw: "trim ?w = ?w" by (rule trim_fixes_trimmed)
  have sw: "startsWith ?w fence" by (simp add: startsWith_def)
  have "\<exists>r. stripOpeningFences ?w = stripOpeningFences r \<and>
          (r = t @ o2 @ fence \<or> r = dropOptional (CHR 0x0A) (t @ o2 @ fence))"
  proof (cases "o1 = []")
    case True
    then have "stripOpeningFences ?w = stripOpeningFences (dropOptional (CHR 0x0A) (t @ o2 @ fence))"
      using stripOpeningFences_json [of "t @ o2 @ fence"] by simp
    then show ?thesis by blast
  next
    case False
    with o1 have "o1 = [CHR 0x0A]" by (simp add: optionalLineFeed_def)
    then have "stripOpeningFences ?w = stripOpeningFences (t @ o2 @ fence)"
      using stripOpeningFences_json [of "CHR 0x0A # t @ o2 @ fence"]
      by (simp add: dropOptional_line_feed)
    then show ?thesis by blast
  qed
  then obtain r where r: "stripOpeningFences ?w = stripOpeningFences r"
      "r = t @ o2 @ fence \<or> r = dropOptional (CHR 0x0A) (t @ o2 @ fence)"
    by blast
  have "trim (stripClosingFence (stripOpeningFences ?w)) = trim t"
    unfolding r(1) using nf o2 r(2) by (rule strip_inside)
  with tw sw show ?thesis by (simp only: stripFences_def Let_def if_True)
qed

lemma isTruncated_empty: "isTruncated []"
  by (simp add: isTruncated_def trim_def endsWith_def)

text \<open>
  Claim C6, amended.  For every parser and every text that contains no run of three
  backticks, the text wrapped in a \<open>json\<close> fence (three backticks and \<open>json\<close> before
  it, three backticks after it, each with or without a line feed between fence and text)
  gives the same result as the text itself.
\<close>

theorem json_fenced_same_as_unfenced:
  assumes "\<not> includesStr t fence" and "optionalLineFeed o1" and "optionalLineFeed o2"
  shows "recover parse (fence @ ''json'' @ o1 @ t @ o2 @ fence) = recover parse t"
proof -
  let ?w = "fence @ ''json'' @ o1 @ t @ o2 @ fence"
  from assms(1) have nf: "\<not> sublist fence t" by (simp add: includesStr_sublist)
  have sf: "stripFences ?w = stripFences t"
    by (simp only: stripFences_json_fenced [OF nf assms(2,3)] stripFences_no_fence [OF nf])
  have ne: "?w \<noteq> []" by (simp add: fence_def)
  show ?thesis
  proof (cases "t = []")
    case True
    then have "stripFences t = []" by (simp add: stripFences_def trim_def startsWith_def fence_def)
    with sf have "isTruncated (stripFences ?w)" by (simp only: isTruncated_empty)
    then have "recover parse ?w = degradedResult"
      unfolding recover_def parseAnalysis_unfold using ne by simp
    moreover from True have "recover parse t = degradedResult"
      by (simp add: recover_def parseAnalysis_unfold)
    ultimately show ?thesis by simp
  next
    case False
    with ne sf show ?thesis
      unfolding recover_def parseAnalysis_unfold by (simp only: if_False)
  qed
qed

theorem json_fenced_same_as_unfenced_witness:
  "recover JSON_parse (fence @ ''json'' @ [CHR 0x0A] @ goodReply @ [CHR 0x0A] @ fence) =
     JObj [(''score'', JNum 85), (''summary'', JStr ''Good headers''), (''issues'', JArr [])]"
proof -
  have a: "\<not> includesStr goodReply fence" by code_simp
  have o: "optionalLineFeed [CHR 0x0A]" by (simp add: optionalLineFeed_def)
  have b: "recover JSON_parse goodReply =
     JObj [(''score'', JNum 85), (''summary'', JStr ''Good headers''), (''issues'', JArr [])]"
    by code_simp
  from json_fenced_same_as_unfenced [OF a o o, of JSON_parse] b show ?thesis by simp
qed

text \<open>
  Claim C6 as stated fails in two ways.  An opening fence without a language tag is not
  removed (the pattern asks for \<open>jso\<close> after the backticks), so the fenced text
  does not parse.  And a fence marker inside the text is removed from the fenced text
  only, since the text itself does not begin with a fence.
\<close>

theorem fenced_differs_counterexample:
  "recover JSON_parse (fence @ [CHR 0x0A] @ goodReply @ [CHR 0x0A] @ fence) \<noteq>
     recover JSON_parse goodReply \<and>
   recover JSON_parse (fence @ [CHR 0x0A] @ goodReply @ [CHR 0x0A] @ fence) = degradedResult \<and>
   recover JSON_parse goodReply =
     JObj [(''score'', JNum 85), (''summary'', JStr ''Good headers''), (''issues'', JArr [])] \<and>
   recover JSON_parse (fence @ ''json'' @ [CHR 0x0A] @ fenceInSummary @ [CHR 0x0A] @ fence) \<noteq>
     recover JSON_parse fenceInSummary \<and>
   recover JSON_parse (fence @ ''json'' @ [CHR 0x0A] @ fenceInSummary @ [CHR 0x0A] @ fence) =
     JObj [(''score'', JNum 85), (''summary'', JStr []), (''issues'', JArr [])] \<and>
   recover JSON_parse fenceInSummary =
     JObj [(''score'', JNum 85), (''summary'', JStr (fence @ ''json'')), (''issues'', JArr [])]"
  by code_simp

subsection \<open>The repair pass\<close>

text \<open>
  Claim C3.  The pass does not toggle \<open>inString\<close> at a quote that follows a backslash,
  also when that backslash is itself escaped.  After a string that ends in an escaped
  backslash its string state is inverted: the raw line feed inside the next string is
  taken to be outside a string and left as it is, the second parse fails too, and the
  degraded result is returned.  With the line feed escaped by hand the same text parses;
  and a text without the escaped backslash is repaired as the claim says.
\<close>

theorem repair_pass_loses_string_state:
  "JSON_parse escapedBackslashReply = Inl ''Bad control character in string literal in JSON'' \<and>
   escapeControlChars False False None escapedBackslashReply = escapedBackslashReply \<and>
   recover JSON_parse escapedBackslashReply = degradedResult \<and>
   recover JSON_parse escapedBackslashReplyEscaped =
     JObj [(''score'', JNum 85), (''summary'', JStr (''dir'' @ [backslash])),
           (''issues'', JArr [JStr (''a'' @ [CHR 0x0A] @ ''b'')])] \<and>
   recover JSON_parse rawNewlineReply =
     JObj [(''score'', JNum 85),
           (''summary'', JStr (''first'' @ [CHR 0x0A] @ ''second'' @ [CHR 0x09] @ ''third'')),
           (''issues'', JArr [])]"
  by code_simp

subsection \<open>The reference parser has fuel enough\<close>

text \<open>
  Every nested call of the parser is on a shorter text, so the bound that \<open>parseText\<close>
  starts with is never used up: the error \<open>OutOfFuel\<close> is not a result of \<open>parseText\<close>.
\<close>

lemma skipWs_shorter: "skipWs s = c # cs \<Longrightarrow> length cs < length s"
proof -
  assume a: "skipWs s = c # cs"
  have "length (skipWs s) \<le> length s" unfolding skipWs_def by (rule length_dropWhile_le)
  with a show ?thesis by simp
qed

lemma consChar_shorter:
  "consChar c x = Inr (str, r) \<Longrightarrow> \<exists>str'. x = Inr (str', r)"
  by (cases x) (auto simp add: consChar_def)

lemma parseStringBody_shorter:
  "parseStringBody s = Inr (str, r) \<Longrightarrow> length r < length s"
proof (induction s arbitrary: str rule: parseStringBody.induct)
  case 1
  then show ?case by simp
next
  case (2 c cs)
  show ?case
  proof (cases "c = dquote")
    case True
    with "2.prems" show ?thesis by simp
  next
    case nq: False
    show ?thesis
    proof (cases "c = backslash")
      case True
      with nq "2.prems" obtain e r0 where cs: "cs = e # r0" by (cases cs) auto
      show ?thesis
      proof (cases "e = CHR ''u''")
        case u: True
        with nq True cs "2.prems" obtain n where h: "hex4 r0 = Some n" "n < 256"
          by (auto split: option.splits if_splits)
        with nq True cs u "2.prems"
        have "consChar (char_of n) (parseStringBody (drop 4 r0)) = Inr (str, r)" by simp
        then obtain str' where "parseStringBody (drop 4 r0) = Inr (str', r)"
          using consChar_shorter by blast
        with "2.IH"(1) [OF nq True cs u h(1) h(2)] have "length r < length (drop 4 r0)" by simp
        with cs show ?thesis by simp
      next
        case nu: False
        with nq True cs "2.prems" obtain ch where un: "unescape e = Some ch"
          by (auto split: option.splits)
        with nq True cs nu "2.prems"
        have "consChar ch (parseStringBody r0) = Inr (str, r)" by simp
        then obtain str' where "parseStringBody r0 = Inr (str', r)"
          using consChar_shorter by blast
        with "2.IH"(2) [OF nq True cs nu un] have "length r < length r0" by simp
        with cs show ?thesis by simp
      qed
    next
      case nb: False
      with nq "2.prems" have ctl: "\<not> (of_char c :: nat) < 32" by (auto split: if_splits)
      with nq nb "2.prems" have "consChar c (parseStringBody cs) = Inr (str, r)" by simp
      then obtain str' where "parseStringBody cs = Inr (str', r)"
        using consChar_shorter by blast
      with "2.IH"(3) [OF nq nb ctl] have "length r < length cs" by simp
      then show ?thesis by simp
    qed
  qed
qed

lemma parseNumber_shorter:
  assumes "parseNumber (c # cs) = Inr (v, r)" and "c = CHR ''-'' \<or> isAsciiDigit c"
  shows "length r < length (c # cs)"
proof (cases "c = CHR ''-''")
  case True
  with assms(1) have "takeWhile isAsciiDigit cs \<noteq> []" and "r = dropWhile isAsciiDigit cs"
    by (auto simp add: parseNumber_def Let_def split: if_splits)
  moreover have "length (dropWhile isAsciiDigit cs) \<le> length cs" by (rule length_dropWhile_le)
  ultimately show ?thesis by simp
next
  case False
  with assms(2) have d: "isAsciiDigit c" by simp
  from False assms(1) have "r = dropWhile isAsciiDigit (c # cs)"
    by (auto simp add: parseNumber_def Let_def split: if_splits)
  with d have "r = dropWhile isAsciiDigit cs" by simp
  moreover have "length (dropWhile isAsciiDigit cs) \<le> length cs" by (rule length_dropWhile_le)
  ultimately show ?thesis by simp
qed

lemma parseNumber_fuel: "parseNumber s \<noteq> Inl OutOfFuel"
  by (simp add: parseNumber_def Let_def)

lemma consChar_fuel: "x \<noteq> Inl OutOfFuel \<Longrightarrow> consChar c x \<noteq> Inl OutOfFuel"
  by (cases x) (auto simp add: consChar_def)

lemma consChar_Inl: "consChar c x = Inl e \<longleftrightarrow> x = Inl e"
  by (cases x) (auto simp add: consChar_def)

lemma parseStringBody_fuel: "parseStringBody s \<noteq> Inl OutOfFuel"
proof (induction s rule: parseStringBody.induct)
  case 1
  show ?case by simp
next
  case (2 c cs)
  show ?case
  proof (cases cs)
    case Nil
    then show ?thesis by (simp add: consChar_Inl)
  next
    case (Cons e r0)
    show ?thesis
    proof (cases "hex4 r0")
      case None
      with Cons "2.IH"(2,3) show ?thesis
        by (cases "unescape e") (simp_all add: consChar_Inl)
    next
      case (Some n)
      with Cons "2.IH" show ?thesis
        by (cases "unescape e") (simp_all add: consChar_Inl)
    qed
  qed
qed

lemma skipWs_le: "length (skipWs s) \<le> length s"
  unfolding skipWs_def by (rule length_dropWhile_le)

lemma container_step:
  assumes sub: "2 * length s + 1 < n \<Longrightarrow>
                inner \<noteq> Inl OutOfFuel \<and> (\<forall>xs r. inner = Inr (xs, r) \<longrightarrow> length r < length s)"
    and f: "2 * length s + 1 < n" and l: "length s < k"
  shows "(case inner of Inl e \<Rightarrow> Inl e | Inr (xs, r) \<Rightarrow> Inr (wrap xs, r)) \<noteq> Inl OutOfFuel \<and>
         (\<forall>v r. (case inner of Inl e \<Rightarrow> Inl e | Inr (xs, r) \<Rightarrow> Inr (wrap xs, r)) = Inr (v, r) \<longrightarrow>
            length r < k)"
proof (cases inner)
  case (Inl e)
  with sub [OF f] show ?thesis by simp
next
  case (Inr p)
  obtain xs r where p: "p = (xs, r)" by (cases p)
  with sub [OF f] Inr have "length r < length s" by simp
  with l Inr p show ?thesis by simp
qed

lemma parseValue_step:
  assumes E: "\<And>acc s. 2 * length s + 1 < n \<Longrightarrow>
                parseElements n acc s \<noteq> Inl OutOfFuel \<and>
                (\<forall>vs r. parseElements n acc s = Inr (vs, r) \<longrightarrow> length r < length s)"
    and M: "\<And>acc s. 2 * length s + 1 < n \<Longrightarrow>
                parseMembers n acc s \<noteq> Inl OutOfFuel \<and>
                (\<forall>kvs r. parseMembers n acc s = Inr (kvs, r) \<longrightarrow> length r < length s)"
    and n: "2 * length s < Suc n"
  shows "parseValue (Suc n) s \<noteq> Inl OutOfFuel \<and>
         (\<forall>v r. parseValue (Suc n) s = Inr (v, r) \<longrightarrow> length r < length s)"
proof (cases "skipWs s")
  case Nil
  then show ?thesis by simp
next
  case (Cons c cs)
  then have l: "Suc (length cs) \<le> length s" using skipWs_le [of s] by simp
  consider (brace) "c = CHR ''{''" | (bracket) "c = CHR ''[''" "c \<noteq> CHR ''{''"
    | (quote) "c = dquote" "c \<noteq> CHR ''{''" "c \<noteq> CHR ''[''"
    | (number) "c = CHR ''-'' \<or> isAsciiDigit c" "c \<noteq> CHR ''{''" "c \<noteq> CHR ''[''" "c \<noteq> dquote"
    | (word) "\<not> (c = CHR ''-'' \<or> isAsciiDigit c)" "c \<noteq> CHR ''{''" "c \<noteq> CHR ''[''" "c \<noteq> dquote"
    by blast
  then show ?thesis
  proof cases
    case brace
    show ?thesis
    proof (cases "skipWs cs")
      case Nil
      with Cons brace have "parseValue (Suc n) s = Inl UnexpectedEnd" by simp
      then show ?thesis by simp
    next
      case inner: (Cons d ds)
      then have l2: "Suc (length ds) \<le> length cs" using skipWs_le [of cs] by simp
      show ?thesis
      proof (cases "d = CHR ''}''")
        case True
        with Cons brace inner have "parseValue (Suc n) s = Inr (JObj [], ds)" by simp
        with l l2 show ?thesis by simp
      next
        case False
        with Cons brace inner have eq: "parseValue (Suc n) s =
            (case parseMembers n [] (d # ds) of Inl e \<Rightarrow> Inl e
             | Inr (kvs, r) \<Rightarrow> Inr (JObj kvs, r))"
          by simp
        from l l2 n have f: "2 * length (d # ds) + 1 < n" and k: "length (d # ds) < length s"
          by simp_all
        show ?thesis unfolding eq using M f k by (rule container_step)
      qed
    qed
  next
    case bracket
    show ?thesis
    proof (cases "skipWs cs")
      case Nil
      with Cons bracket have "parseValue (Suc n) s = Inl UnexpectedEnd" by simp
      then show ?thesis by simp
    next
      case inner: (Cons d ds)
      then have l2: "Suc (length ds) \<le> length cs" using skipWs_le [of cs] by simp
      show ?thesis
      proof (cases "d = CHR '']''")
        case True
        with Cons bracket inner have "parseValue (Suc n) s = Inr (JArr [], ds)" by simp
        with l l2 show ?thesis by simp
      next
        case False
        with Cons bracket inner have eq: "parseValue (Suc n) s =
            (case parseElements n [] (d # ds) of Inl e \<Rightarrow> Inl e
             | Inr (vs, r) \<Rightarrow> Inr (JArr vs, r))"
          by simp
        from l l2 n have f: "2 * length (d # ds) + 1 < n" and k: "length (d # ds) < length s"
          by simp_all
        show ?thesis unfolding eq using E f k by (rule container_step)
      qed
    qed
  next
    case quote
    with Cons have eq: "parseValue (Suc n) s =
        (case parseStringBody cs of Inl e \<Rightarrow> Inl e | Inr (str, r) \<Rightarrow> Inr (JStr str, r))"
      by simp
    show ?thesis
    proof (cases "parseStringBody cs")
      case (Inl e)
      with parseStringBody_fuel [of cs] show ?thesis unfolding eq by simp
    next
      case (Inr p)
      obtain str r where p: "p = (str, r)" by (cases p)
      with Inr have "length r < length cs" by (simp add: parseStringBody_shorter)
      with l Inr p show ?thesis unfolding eq by simp
    qed
  next
    case number
    with Cons have eq: "parseValue (Suc n) s = parseNumber (c # cs)" by simp
    show ?thesis
    proof (cases "parseNumber (c # cs)")
      case (Inl e)
      with parseNumber_fuel [of "c # cs"] show ?thesis unfolding eq by simp
    next
      case (Inr p)
      obtain v r where p: "p = (v, r)" by (cases p)
      with Inr have "parseNumber (c # cs) = Inr (v, r)" by simp
      from this number(1) have "length r < length (c # cs)" by (rule parseNumber_shorter)
      with l Inr p show ?thesis unfolding eq by simp
    qed
  next
    case word
    with Cons have eq: "parseValue (Suc n) s =
        (if prefix ''true'' (c # cs) then Inr (JBool True, drop 4 (c # cs))
         else if prefix ''false'' (c # cs) then Inr (JBool False, drop 5 (c # cs))
         else if prefix ''null'' (c # cs) then Inr (JNull, drop 4 (c # cs))
         else Inl UnexpectedToken)"
      by simp
    from l have "length cs - 3 < length s" and "length cs - 4 < length s" by simp_all
    then show ?thesis unfolding eq by simp
  qed
qed

lemma parseElements_step:
  assumes V: "\<And>s. 2 * length s < n \<Longrightarrow>
                parseValue n s \<noteq> Inl OutOfFuel \<and>
                (\<forall>v r. parseValue n s = Inr (v, r) \<longrightarrow> length r < length s)"
    and E: "\<And>acc s. 2 * length s + 1 < n \<Longrightarrow>
                parseElements n acc s \<noteq> Inl OutOfFuel \<and>
                (\<forall>vs r. parseElements n acc s = Inr (vs, r) \<longrightarrow> length r < length s)"
    and n: "2 * length s + 1 < Suc n"
  shows "parseElements (Suc n) acc s \<noteq> Inl OutOfFuel \<and>
         (\<forall>vs r. parseElements (Suc n) acc s = Inr (vs, r) \<longrightarrow> length r < length s)"
proof (cases "parseValue n s")
  case (Inl e)
  with V [of s] n show ?thesis by simp
next
  case (Inr p)
  obtain v r where p: "p = (v, r)" by (cases p)
  from V [of s] n Inr p have lr: "length r < length s" by simp
  show ?thesis
  proof (cases "skipWs r")
    case Nil
    with Inr p show ?thesis by simp
  next
    case (Cons c cs)
    then have "Suc (length cs) \<le> length r" using skipWs_le [of r] by simp
    with lr n have f: "2 * length cs + 1 < n" and lc: "length cs < length s" by simp_all
    from E [OF f, of "acc @ [v]"] lc Inr p Cons show ?thesis by auto
  qed
qed

lemma parseMembers_step:
  assumes V: "\<And>s. 2 * length s < n \<Longrightarrow>
                parseValue n s \<noteq> Inl OutOfFuel \<and>
                (\<forall>v r. parseValue n s = Inr (v, r) \<longrightarrow> length r < length s)"
    and M: "\<And>acc s. 2 * length s + 1 < n \<Longrightarrow>
                parseMembers n acc s \<noteq> Inl OutOfFuel \<and>
                (\<forall>kvs r. parseMembers n acc s = Inr (kvs, r) \<longrightarrow> length r < length s)"
    and n: "2 * length s + 1 < Suc n"
  shows "parseMembers (Suc n) acc s \<noteq> Inl OutOfFuel \<and>
         (\<forall>kvs r. parseMembers (Suc n) acc s = Inr (kvs, r) \<longrightarrow> length r < length s)"
proof (cases "skipWs s")
  case Nil
  then show ?thesis by simp
next
  case (Cons c cs)
  then have l: "Suc (length cs) \<le> length s" using skipWs_le [of s] by simp
  show ?thesis
  proof (cases "c = dquote")
    case False
    with Cons show ?thesis by simp
  next
    case True
    show ?thesis
    proof (cases "parseStringBody cs")
      case (Inl e)
      with Cons True parseStringBody_fuel [of cs] show ?thesis by simp
    next
      case (Inr p)
      obtain key r where p: "p = (key, r)" by (cases p)
      from Inr p have lr: "length r < length cs" by (simp add: parseStringBody_shorter)
      show ?thesis
      proof (cases "skipWs r")
        case Nil
        with Cons True Inr p show ?thesis by simp
      next
        case colon: (Cons d ds)
        then have ld: "Suc (length ds) \<le> length r" using skipWs_le [of r] by simp
        show ?thesis
        proof (cases "d = CHR '':''")
          case False
          with Cons True Inr p colon show ?thesis by simp
        next
          case dc: True
          from ld lr l n have fv: "2 * length ds < n" by simp
          show ?thesis
          proof (cases "parseValue n ds")
            case (Inl e)
            with V [OF fv] Cons True Inr p colon dc show ?thesis
              by simp
          next
            case val: (Inr q)
            obtain v r2 where q: "q = (v, r2)" by (cases q)
            from V [OF fv] val q have l2: "length r2 < length ds" by simp
            show ?thesis
            proof (cases "skipWs r2")
              case Nil
              with Cons True Inr p colon dc val q show ?thesis
                by simp
            next
              case last: (Cons e es)
              then have "Suc (length es) \<le> length r2" using skipWs_le [of r2] by simp
              with l2 ld lr l n have f: "2 * length es + 1 < n" and le: "length es < length s"
                by simp_all
              from M [OF f, of "AList.update key v acc"] le Cons True Inr p colon dc val q last
              show ?thesis by auto
            qed
          qed
        qed
      qed
    qed
  qed
qed

lemma fuel_enough:
  "(\<forall>s. 2 * length s < n \<longrightarrow>
      parseValue n s \<noteq> Inl OutOfFuel \<and>
      (\<forall>v r. parseValue n s = Inr (v, r) \<longrightarrow> length r < length s)) \<and>
   (\<forall>acc s. 2 * length s + 1 < n \<longrightarrow>
      parseElements n acc s \<noteq> Inl OutOfFuel \<and>
      (\<forall>vs r. parseElements n acc s = Inr (vs, r) \<longrightarrow> length r < length s)) \<and>
   (\<forall>acc s. 2 * length s + 1 < n \<longrightarrow>
      parseMembers n acc s \<noteq> Inl OutOfFuel \<and>
      (\<forall>kvs r. parseMembers n acc s = Inr (kvs, r) \<longrightarrow> length r < length s))"
proof (induction n)
  case 0
  show ?case by simp
next
  case (Suc n)
  from Suc have V: "\<And>s. 2 * length s < n \<Longrightarrow>
                parseValue n s \<noteq> Inl OutOfFuel \<and>
                (\<forall>v r. parseValue n s = Inr (v, r) \<longrightarrow> length r < length s)"
    and E: "\<And>acc s. 2 * length s + 1 < n \<Longrightarrow>
                parseElements n acc s \<noteq> Inl OutOfFuel \<and>
                (\<forall>vs r. parseElements n acc s = Inr (vs, r) \<longrightarrow> length r < length s)"
    and M: "\<And>acc s. 2 * length s + 1 < n \<Longrightarrow>
                parseMembers n acc s \<noteq> Inl OutOfFuel \<and>
                (\<forall>kvs r. parseMembers n acc s = Inr (kvs, r) \<longrightarrow> length r < length s)"
    by blast+
  show ?case
    using parseValue_step [OF E M] parseElements_step [OF V E] parseMembers_step [OF V M]
    by blast
qed

theorem JSON_parse_fuel: "parseText s \<noteq> Inl OutOfFuel"
proof -
  have "2 * length s < 2 * length s + 2" by simp
  with fuel_enough [of "2 * length s + 2"]
  have "parseValue (2 * length s + 2) s \<noteq> Inl OutOfFuel" by blast
  then show ?thesis by (auto simp add: parseText_def split: sum.splits)
qed

subsection \<open>Numbers written and read\<close>













subsection \<open>String literals written and read\<close>






lemma quoteString_first: "quoteString s = dquote # concat (map quoteChar s) @ [dquote]"
  by (simp add: quoteString_def)

subsection \<open>Values written and read\<close>








lemma numberEnds_punct [simp]:
  "numberEnds (CHR '','' # r)" "numberEnds (CHR '']'' # r)" "numberEnds (CHR ''}'' # r)"
  "numberEnds []"
  by (simp_all add: numberEnds_def isAsciiDigit_def)









subsection \<open>The round trip\<close>







end
